theory Spec2Isabelle
  imports Main "HOL-Library.Char_ord" "HOL-Library.List_Lexorder"
begin

section \<open>The heap of red-black tree nodes (pointersorter.c)\<close>

text \<open>
  A node pointer is an address or NULL (\<open>None\<close>). The heap maps every address to the
  node stored there; \<open>nxt\<close> is the next address \<open>malloc\<close> hands out, so every cell
  at or above \<open>nxt\<close> is unallocated memory with arbitrary content. The \<open>word\<close>
  field (\<open>word_of\<close>) holds the bytes of the C string before its terminating NUL; the
  color field (\<open>color_of\<close>) is the \<open>char\<close> of the struct (\<open>r\<close> or \<open>b\<close>, anything else invalid).
\<close>

type_synonym addr = nat

type_synonym ptr = "addr option"

record node =
  word_of :: string
  color_of :: char
  parent_of :: ptr
  left_of :: ptr
  right_of :: ptr

record heap =
  cells :: "addr \<Rightarrow> node"
  nxt :: addr

subsection \<open>Accessors\<close>

definition getWord :: "heap \<Rightarrow> ptr \<Rightarrow> string option" where
  "getWord h n = (case n of None \<Rightarrow> None | Some a \<Rightarrow> Some (word_of (cells h a)))"

definition setWord :: "heap \<Rightarrow> ptr \<Rightarrow> string \<Rightarrow> heap" where
  "setWord h n w =
     (case n of None \<Rightarrow> h
      | Some a \<Rightarrow> h\<lparr>cells := (cells h)(a := (cells h a)\<lparr>word_of := w\<rparr>)\<rparr>)"

definition getColor :: "heap \<Rightarrow> ptr \<Rightarrow> char" where
  "getColor h n = (case n of None \<Rightarrow> CHR 0x00 | Some a \<Rightarrow> color_of (cells h a))"

definition setColor :: "heap \<Rightarrow> ptr \<Rightarrow> char \<Rightarrow> heap" where
  "setColor h n c =
     (case n of None \<Rightarrow> h
      | Some a \<Rightarrow>
          if c = CHR ''r'' \<or> c = CHR ''b''
          then h\<lparr>cells := (cells h)(a := (cells h a)\<lparr>color_of := c\<rparr>)\<rparr>
          else h)"

definition getParent :: "heap \<Rightarrow> ptr \<Rightarrow> ptr" where
  "getParent h child = (case child of None \<Rightarrow> None | Some a \<Rightarrow> parent_of (cells h a))"

definition setParent :: "heap \<Rightarrow> ptr \<Rightarrow> ptr \<Rightarrow> heap" where
  "setParent h child p =
     (case child of None \<Rightarrow> h
      | Some a \<Rightarrow> h\<lparr>cells := (cells h)(a := (cells h a)\<lparr>parent_of := p\<rparr>)\<rparr>)"

definition getLeftChild :: "heap \<Rightarrow> ptr \<Rightarrow> ptr" where
  "getLeftChild h p = (case p of None \<Rightarrow> None | Some a \<Rightarrow> left_of (cells h a))"

definition setLeftChild :: "heap \<Rightarrow> ptr \<Rightarrow> ptr \<Rightarrow> heap" where
  "setLeftChild h p child =
     (case p of None \<Rightarrow> h
      | Some a \<Rightarrow> h\<lparr>cells := (cells h)(a := (cells h a)\<lparr>left_of := child\<rparr>)\<rparr>)"

definition getRightChild :: "heap \<Rightarrow> ptr \<Rightarrow> ptr" where
  "getRightChild h p = (case p of None \<Rightarrow> None | Some a \<Rightarrow> right_of (cells h a))"

definition setRightChild :: "heap \<Rightarrow> ptr \<Rightarrow> ptr \<Rightarrow> heap" where
  "setRightChild h p child =
     (case p of None \<Rightarrow> h
      | Some a \<Rightarrow> h\<lparr>cells := (cells h)(a := (cells h a)\<lparr>right_of := child\<rparr>)\<rparr>)"

subsection \<open>Relational queries\<close>

definition getGrandparent :: "heap \<Rightarrow> ptr \<Rightarrow> ptr" where
  "getGrandparent h child =
     (case child of None \<Rightarrow> None
      | Some a \<Rightarrow>
          (case parent_of (cells h a) of None \<Rightarrow> None
           | Some p \<Rightarrow> parent_of (cells h p)))"

text \<open>
  \<open>getUncle\<close> dereferences \<open>child\<close> and \<open>grandparent\<close> directly; both are non-NULL
  in that branch, where the null-safe accessors read the same fields.
\<close>

definition getUncle :: "heap \<Rightarrow> ptr \<Rightarrow> ptr" where
  "getUncle h child =
     (let grandparent = getGrandparent h child in
      if grandparent \<noteq> None then
        (if getParent h child = getLeftChild h grandparent
         then getRightChild h grandparent
         else getLeftChild h grandparent)
      else None)"

subsection \<open>Allocation\<close>

text \<open>
  \<open>malloc\<close> returns the next unused address; the memory it returns is not
  initialised. Allocation never fails in the model (the source does not test for it).
\<close>

definition malloc :: "heap \<Rightarrow> heap \<times> ptr" where
  "malloc h = (h\<lparr>nxt := Suc (nxt h)\<rparr>, Some (nxt h))"

definition makeNode :: "heap \<Rightarrow> string \<Rightarrow> ptr \<Rightarrow> heap \<times> ptr" where
  "makeNode h w p =
     (let (h, newNode) = malloc h;
          h = setWord h newNode w;
          h = setColor h newNode (CHR ''r'');
          h = setParent h newNode p;
          h = setLeftChild h newNode None;
          h = setRightChild h newNode None
      in (h, newNode))"

subsection \<open>Rotations\<close>

definition leftRotate :: "heap \<Rightarrow> ptr \<Rightarrow> ptr \<Rightarrow> heap \<times> ptr" where
  "leftRotate h root n =
     (let m = getRightChild h n;
          h = setRightChild h n (getLeftChild h m);
          h = (if getLeftChild h m \<noteq> None then setParent h (getLeftChild h m) n else h);
          h = setParent h m (getParent h n);
          (h, root) =
            (if getParent h n = None then (h, m)
             else if n = getLeftChild h (getParent h n)
                  then (setLeftChild h (getParent h n) m, root)
                  else (setRightChild h (getParent h n) m, root));
          h = setLeftChild h m n;
          h = setParent h n m
      in (h, root))"

definition rightRotate :: "heap \<Rightarrow> ptr \<Rightarrow> ptr \<Rightarrow> heap \<times> ptr" where
  "rightRotate h root n =
     (let m = getLeftChild h n;
          h = setLeftChild h n (getRightChild h m);
          h = (if getRightChild h m \<noteq> None then setParent h (getRightChild h m) n else h);
          h = setParent h m (getParent h n);
          (h, root) =
            (if getParent h n = None then (h, m)
             else if n = getRightChild h (getParent h n)
                  then (setRightChild h (getParent h n) m, root)
                  else (setLeftChild h (getParent h n) m, root));
          h = setRightChild h m n;
          h = setParent h n m
      in (h, root))"

subsection \<open>String comparison\<close>

text \<open>
  \<open>strcmp\<close> compares the bytes as unsigned values up to the first difference; the C
  standard fixes only the sign of the result. The end of a string is its NUL
  terminator, which is below every byte of a word.
\<close>

fun strcmp :: "string \<Rightarrow> string \<Rightarrow> int" where
  "strcmp [] [] = 0"
| "strcmp [] (y # ys) = - 1"
| "strcmp (x # xs) [] = 1"
| "strcmp (x # xs) (y # ys) =
     (if x = y then strcmp xs ys else int (of_char x) - int (of_char y))"

subsection \<open>Insertion\<close>

text \<open>
  The descent loop of \<open>insert\<close>: it either returns from the function at an equal
  key (\<open>Found\<close>) or leaves the loop with \<open>ptr = NULL\<close> and the last values of
  \<open>parent\<close> and \<open>cmp\<close> (\<open>Fell\<close>).
\<close>

datatype descent = Found | Fell ptr int

partial_function (option) descend :: "heap \<Rightarrow> string \<Rightarrow> ptr \<Rightarrow> ptr \<Rightarrow> int \<Rightarrow> descent option" where
  "descend h w ptr parent cmp =
     (if ptr \<noteq> None then
        (let parent = ptr;
             cmp = strcmp w (the (getWord h ptr)) in
         if cmp = 0 then Some Found
         else if cmp < 0 then descend h w (getLeftChild h ptr) parent cmp
         else descend h w (getRightChild h ptr) parent cmp)
      else Some (Fell parent cmp))"

text \<open>
  The fixup loop. Its condition reads the local variable \<open>parent\<close>, which the loop
  body never assigns: it stays the node under which the new node was attached.
\<close>

partial_function (option) fixup :: "heap \<Rightarrow> ptr \<Rightarrow> ptr \<Rightarrow> ptr \<Rightarrow> (heap \<times> ptr) option" where
  "fixup h root ptr parent =
     (if ptr \<noteq> root \<and> getColor h parent = CHR ''r'' then
        (let uncle = getUncle h ptr;
             grandparent = getGrandparent h ptr in
         if uncle = getRightChild h grandparent then
           (if getColor h uncle = CHR ''r'' then
              (let h = setColor h parent (CHR ''b'');
                   h = setColor h uncle (CHR ''b'');
                   h = setColor h grandparent (CHR ''r'');
                   ptr = grandparent
               in fixup h root ptr parent)
            else
              (let (h, root, ptr) =
                     (if ptr = getRightChild h parent
                      then (let ptr = parent; (h, root) = leftRotate h root ptr
                            in (h, root, ptr))
                      else (h, root, ptr));
                   h = setColor h parent (CHR ''b'');
                   h = setColor h grandparent (CHR ''r'');
                   (h, root) = rightRotate h root grandparent
               in fixup h root ptr parent))
         else
           (if getColor h uncle = CHR ''r'' then
              (let h = setColor h parent (CHR ''b'');
                   h = setColor h uncle (CHR ''b'');
                   h = setColor h grandparent (CHR ''r'');
                   ptr = grandparent
               in fixup h root ptr parent)
            else
              (let (h, root, ptr) =
                     (if ptr = getLeftChild h parent
                      then (let ptr = parent; (h, root) = rightRotate h root ptr
                            in (h, root, ptr))
                      else (h, root, ptr));
                   h = setColor h parent (CHR ''b'');
                   h = setColor h grandparent (CHR ''r'');
                   (h, root) = leftRotate h root grandparent
               in fixup h root ptr parent)))
      else Some (h, root))"

text \<open>
  \<open>insert\<close>. The descent starts from the root the caller passed (\<open>ptr\<close> is
  initialised before the empty-tree test), so on an empty tree the loop is skipped,
  \<open>cmp\<close> is 0 and the attachment step allocates a second node under the NULL
  \<open>parent\<close>, which no link ever reaches.
\<close>

definition insert_rb :: "heap \<Rightarrow> ptr \<Rightarrow> string \<Rightarrow> (heap \<times> ptr) option" where
  "insert_rb h root w =
     (let ptr = root;
          (h, root) = (if root = None then makeNode h w None else (h, root)) in
      case descend h w ptr None 0 of
        None \<Rightarrow> None
      | Some Found \<Rightarrow> Some (h, root)
      | Some (Fell parent cmp) \<Rightarrow>
          (let (h, ptr) =
                 (if cmp < 0
                  then (let (h, n) = makeNode h w parent;
                            h = setLeftChild h parent n
                        in (h, getLeftChild h parent))
                  else (let (h, n) = makeNode h w parent;
                            h = setRightChild h parent n
                        in (h, getRightChild h parent)))
           in case fixup h root ptr parent of
                None \<Rightarrow> None
              | Some (h, root) \<Rightarrow> Some (setColor h root (CHR ''b''), root)))"

subsection \<open>Traversal\<close>

text \<open>\<open>printTree\<close>, with the lines it prints as its result.\<close>

partial_function (option) printTree :: "heap \<Rightarrow> ptr \<Rightarrow> string list option" where
  "printTree h root =
     (if root = None then Some []
      else Option.bind (printTree h (getLeftChild h root)) (\<lambda>ls.
           Option.bind (printTree h (getRightChild h root)) (\<lambda>rs.
           Some (ls @ [the (getWord h root)] @ rs))))"

text \<open>
  The caller's loop (\<open>main\<close>): \<open>root = insert(root, newWord)\<close> for each word in
  arrival order.
\<close>

fun insert_all :: "heap \<Rightarrow> ptr \<Rightarrow> string list \<Rightarrow> (heap \<times> ptr) option" where
  "insert_all h root [] = Some (h, root)"
| "insert_all h root (w # ws) =
     (case insert_rb h root w of
        None \<Rightarrow> None
      | Some (h', root') \<Rightarrow> insert_all h' root' ws)"

section \<open>Trees in the heap\<close>

text \<open>
  The shape of a tree: which address sits where. \<open>is_tree h par p t\<close> says that the
  pointer \<open>p\<close> leads to a tree of shape \<open>t\<close> in the heap \<open>h\<close>, every node's child
  links and parent link agreeing with the shape (\<open>par\<close> is the parent link of the top
  node). \<open>inorder\<close> lists the addresses left subtree, node, right subtree.
\<close>

datatype shape = Leaf | Node shape addr shape

fun inorder :: "shape \<Rightarrow> addr list" where
  "inorder Leaf = []"
| "inorder (Node l a r) = inorder l @ a # inorder r"

fun rootp :: "shape \<Rightarrow> ptr" where
  "rootp Leaf = None"
| "rootp (Node l a r) = Some a"

fun is_tree :: "heap \<Rightarrow> ptr \<Rightarrow> ptr \<Rightarrow> shape \<Rightarrow> bool" where
  "is_tree h par p Leaf = (p = None)"
| "is_tree h par p (Node l a r) =
     (p = Some a \<and> getParent h (Some a) = par \<and>
      is_tree h (Some a) (getLeftChild h (Some a)) l \<and>
      is_tree h (Some a) (getRightChild h (Some a)) r)"

text \<open>
  A well-formed tree: the root has no parent, no address occurs twice (so the links form
  a tree, without sharing or cycles), and every node has been allocated.
\<close>

definition wf_tree :: "heap \<Rightarrow> ptr \<Rightarrow> shape \<Rightarrow> bool" where
  "wf_tree h root t =
     (is_tree h None root t \<and> distinct (inorder t) \<and> list_all (\<lambda>a. a < nxt h) (inorder t))"

text \<open>The key stored at an address, and the search-tree order by \<open>strcmp\<close>.\<close>

definition key :: "heap \<Rightarrow> addr \<Rightarrow> string" where
  "key h a = the (getWord h (Some a))"

definition bst :: "heap \<Rightarrow> shape \<Rightarrow> bool" where
  "bst h t = sorted_wrt (\<lambda>a b. strcmp (key h a) (key h b) < 0) (inorder t)"

text \<open>
  The invariant that \<open>insert\<close> maintains: a well-formed search tree whose root, when
  there is one, is BLACK.
\<close>

definition rbt_inv :: "heap \<Rightarrow> ptr \<Rightarrow> shape \<Rightarrow> bool" where
  "rbt_inv h root t =
     (is_tree h None root t \<and> distinct (inorder t) \<and> (\<forall>a\<in>set (inorder t). a < nxt h) \<and>
      (root = None \<or> getColor h root = CHR ''b'') \<and> bst h t)"

text \<open>
  The red-black conditions on colors, as functions of a heap and a shape: some RED node
  has a RED child; the number of BLACK nodes on each path from the root to an absent
  child, paths listed left to right.
\<close>

fun red_red :: "heap \<Rightarrow> shape \<Rightarrow> bool" where
  "red_red h Leaf = False"
| "red_red h (Node l a r) =
     (red_red h l \<or> red_red h r \<or>
      (getColor h (Some a) = CHR ''r'' \<and>
       (getColor h (rootp l) = CHR ''r'' \<or> getColor h (rootp r) = CHR ''r'')))"

fun black_counts :: "heap \<Rightarrow> shape \<Rightarrow> nat list" where
  "black_counts h Leaf = [0]"
| "black_counts h (Node l a r) =
     map (\<lambda>k. (if getColor h (Some a) = CHR ''b'' then 1 else 0) + k)
       (black_counts h l @ black_counts h r)"

text \<open>
  The whole run of the program on a list of words: insert each, then print the tree.
\<close>

definition sort_words :: "heap \<Rightarrow> string list \<Rightarrow> string list option" where
  "sort_words h ws =
     (case insert_all h None ws of None \<Rightarrow> None | Some (h', root) \<Rightarrow> printTree h' root)"

subsection \<open>Concrete heaps\<close>

text \<open>
  A heap with nothing allocated, and a heap holding the three-node tree with BLACK root
  \<open>m\<close> at address 0 and RED children \<open>d\<close> (address 1) and \<open>t\<close> (address 2).
\<close>

definition initial_heap :: heap where
  "initial_heap =
     \<lparr>cells = (\<lambda>_. \<lparr>word_of = [], color_of = CHR 0x00, parent_of = None, left_of = None,
                      right_of = None\<rparr>),
      nxt = 0\<rparr>"

definition example_heap :: heap where
  "example_heap =
     (let (h, a) = makeNode initial_heap ''m'' None;
          h = setColor h a (CHR ''b'');
          (h, b) = makeNode h ''d'' a;
          h = setLeftChild h a b;
          (h, c) = makeNode h ''t'' a;
          h = setRightChild h a c
      in h)"

definition example_shape :: shape where
  "example_shape = Node (Node Leaf 1 Leaf) 0 (Node Leaf 2 Leaf)"

subsection \<open>Paths from the root\<close>

text \<open>
  A position in a tree is the list of frames from the position up to the root: each
  frame is the node passed and the sibling subtree left aside. \<open>plug c s\<close> is the tree
  with \<open>s\<close> at the position \<open>c\<close>; \<open>is_path h root c par p\<close> says that the heap holds
  the frames of \<open>c\<close> above the pointer \<open>p\<close>, whose parent is \<open>par\<close>. \<open>before\<close> and
  \<open>after\<close> are the addresses left and right of the position in the in-order sequence.
\<close>

datatype frame = InL addr shape | InR shape addr

fun plug :: "frame list \<Rightarrow> shape \<Rightarrow> shape" where
  "plug [] s = s"
| "plug (InL a r # c) s = plug c (Node s a r)"
| "plug (InR l a # c) s = plug c (Node l a s)"

fun is_path :: "heap \<Rightarrow> ptr \<Rightarrow> frame list \<Rightarrow> ptr \<Rightarrow> ptr \<Rightarrow> bool" where
  "is_path h root [] par p = (par = None \<and> p = root)"
| "is_path h root (InL a r # c) par p =
     (par = Some a \<and> getLeftChild h (Some a) = p \<and>
      is_tree h (Some a) (getRightChild h (Some a)) r \<and>
      is_path h root c (getParent h (Some a)) (Some a))"
| "is_path h root (InR l a # c) par p =
     (par = Some a \<and> getRightChild h (Some a) = p \<and>
      is_tree h (Some a) (getLeftChild h (Some a)) l \<and>
      is_path h root c (getParent h (Some a)) (Some a))"

fun before :: "frame list \<Rightarrow> addr list" where
  "before [] = []"
| "before (InL a r # c) = before c"
| "before (InR l a # c) = before c @ inorder l @ [a]"

fun after :: "frame list \<Rightarrow> addr list" where
  "after [] = []"
| "after (InL a r # c) = a # inorder r @ after c"
| "after (InR l a # c) = after c"

definition same_links :: "heap \<Rightarrow> heap \<Rightarrow> addr \<Rightarrow> bool" where
  "same_links h h' a =
     (getParent h' (Some a) = getParent h (Some a) \<and>
      getLeftChild h' (Some a) = getLeftChild h (Some a) \<and>
      getRightChild h' (Some a) = getRightChild h (Some a))"

fun hole_ok :: "heap \<Rightarrow> heap \<Rightarrow> frame list \<Rightarrow> ptr \<Rightarrow> bool" where
  "hole_ok h h' [] p' = True"
| "hole_ok h h' (InL a r # c) p' =
     (getLeftChild h' (Some a) = p' \<and>
      getRightChild h' (Some a) = getRightChild h (Some a) \<and>
      getParent h' (Some a) = getParent h (Some a))"
| "hole_ok h h' (InR l a # c) p' =
     (getRightChild h' (Some a) = p' \<and>
      getLeftChild h' (Some a) = getLeftChild h (Some a) \<and>
      getParent h' (Some a) = getParent h (Some a))"

fun dir_ok :: "frame list \<Rightarrow> int \<Rightarrow> bool" where
  "dir_ok [] cmp = True"
| "dir_ok (InL a r # c) cmp = (cmp < 0)"
| "dir_ok (InR l a # c) cmp = (\<not> cmp < 0)"

definition ctx_bounds :: "heap \<Rightarrow> string \<Rightarrow> frame list \<Rightarrow> bool" where
  "ctx_bounds h w c =
     ((\<forall>a\<in>set (before c). strcmp (key h a) w < 0) \<and> (\<forall>a\<in>set (after c). strcmp w (key h a) < 0))"

subsection \<open>Steps of the code, named for the proofs\<close>

text \<open>
  The step of a rotation that makes the parent of \<open>n\<close> point to \<open>m\<close> (\<open>leftRotate\<close>
  tests the left child first, \<open>rightRotate\<close> the right child), and the attachment step
  of \<open>insert\<close>.
\<close>

definition relinkL :: "heap \<Rightarrow> ptr \<Rightarrow> ptr \<Rightarrow> ptr \<Rightarrow> heap" where
  "relinkL h par n m =
     (if n = getLeftChild h par then setLeftChild h par m else setRightChild h par m)"

definition relinkR :: "heap \<Rightarrow> ptr \<Rightarrow> ptr \<Rightarrow> ptr \<Rightarrow> heap" where
  "relinkR h par n m =
     (if n = getRightChild h par then setRightChild h par m else setLeftChild h par m)"

definition attach :: "heap \<Rightarrow> string \<Rightarrow> ptr \<Rightarrow> int \<Rightarrow> heap \<times> ptr" where
  "attach h w parent cmp =
     (if cmp < 0
      then (let (h, n) = makeNode h w parent;
                h = setLeftChild h parent n
            in (h, getLeftChild h parent))
      else (let (h, n) = makeNode h w parent;
                h = setRightChild h parent n
            in (h, getRightChild h parent)))"

text \<open>
  What the fixup loop establishes below a position \<open>c\<close>, and what \<open>insert\<close>
  establishes: either the key was found and nothing changed, or a new node at the
  address \<open>nxt h\<close> stands between the keys below and the keys above the word.
\<close>

definition fix_post :: "heap \<Rightarrow> ptr \<Rightarrow> frame list \<Rightarrow> ptr \<Rightarrow> addr list \<Rightarrow> (heap \<times> ptr) option \<Rightarrow> bool" where
  "fix_post h root c gpar xs res =
     (\<exists>h' root' sub'. res = Some (h', root') \<and>
        is_path h' root' c gpar (rootp sub') \<and> is_tree h' gpar (rootp sub') sub' \<and>
        inorder sub' = xs \<and> root' = (if c = [] then rootp sub' else root) \<and>
        nxt h' = nxt h \<and> (\<forall>x. getWord h' x = getWord h x))"

definition ins_post :: "heap \<Rightarrow> ptr \<Rightarrow> shape \<Rightarrow> string \<Rightarrow> (heap \<times> ptr) option \<Rightarrow> bool" where
  "ins_post h root t w res =
     ((res = Some (h, root) \<and> root \<noteq> None \<and> w \<in> key h ` set (inorder t)) \<or>
      (\<exists>h' root' t' xs ys. res = Some (h', root') \<and> is_tree h' None root' t' \<and>
         inorder t = xs @ ys \<and> inorder t' = xs @ nxt h # ys \<and> nxt h < nxt h' \<and>
         getWord h' (Some (nxt h)) = Some w \<and>
         (\<forall>a<nxt h. getWord h' (Some a) = getWord h (Some a)) \<and>
         getColor h' root' = CHR ''b'' \<and> root' \<noteq> None \<and>
         (bst h t \<longrightarrow> (\<forall>a\<in>set xs. strcmp (key h a) w < 0) \<and>
                        (\<forall>a\<in>set ys. strcmp w (key h a) < 0))))"

declare descend.simps [code] fixup.simps [code] printTree.simps [code]

section \<open>Lemmas\<close>

subsection \<open>Reading a field after writing one\<close>

lemmas get_defs = getWord_def getColor_def getParent_def getLeftChild_def getRightChild_def

lemmas set_defs = setWord_def setColor_def setParent_def setLeftChild_def setRightChild_def

lemma get_None [simp]:
  "getWord h None = None" "getColor h None = CHR 0x00" "getParent h None = None"
  "getLeftChild h None = None" "getRightChild h None = None"
  by (simp_all add: get_defs)

lemma set_None [simp]:
  "setWord h None w = h" "setColor h None c = h" "setParent h None p = h"
  "setLeftChild h None p = h" "setRightChild h None p = h"
  by (simp_all add: set_defs)

lemma nxt_set [simp]:
  "nxt (setWord h n w) = nxt h" "nxt (setColor h n c) = nxt h" "nxt (setParent h n p) = nxt h"
  "nxt (setLeftChild h n p) = nxt h" "nxt (setRightChild h n p) = nxt h"
  by (simp_all add: set_defs split: option.splits)

lemma getParent_set [simp]:
  "getParent (setParent h n p) x = (if x = n \<and> n \<noteq> None then p else getParent h x)"
  "getParent (setLeftChild h n p) x = getParent h x"
  "getParent (setRightChild h n p) x = getParent h x"
  "getParent (setColor h n c) x = getParent h x"
  "getParent (setWord h n w) x = getParent h x"
  by (auto simp: get_defs set_defs split: option.splits)

lemma getLeftChild_set [simp]:
  "getLeftChild (setLeftChild h n p) x = (if x = n \<and> n \<noteq> None then p else getLeftChild h x)"
  "getLeftChild (setParent h n p) x = getLeftChild h x"
  "getLeftChild (setRightChild h n p) x = getLeftChild h x"
  "getLeftChild (setColor h n c) x = getLeftChild h x"
  "getLeftChild (setWord h n w) x = getLeftChild h x"
  by (auto simp: get_defs set_defs split: option.splits)

lemma getRightChild_set [simp]:
  "getRightChild (setRightChild h n p) x = (if x = n \<and> n \<noteq> None then p else getRightChild h x)"
  "getRightChild (setParent h n p) x = getRightChild h x"
  "getRightChild (setLeftChild h n p) x = getRightChild h x"
  "getRightChild (setColor h n c) x = getRightChild h x"
  "getRightChild (setWord h n w) x = getRightChild h x"
  by (auto simp: get_defs set_defs split: option.splits)

lemma getColor_set [simp]:
  "getColor (setColor h n c) x =
     (if x = n \<and> n \<noteq> None \<and> (c = CHR ''r'' \<or> c = CHR ''b'') then c else getColor h x)"
  "getColor (setParent h n p) x = getColor h x"
  "getColor (setLeftChild h n p) x = getColor h x"
  "getColor (setRightChild h n p) x = getColor h x"
  "getColor (setWord h n w) x = getColor h x"
  by (auto simp: get_defs set_defs split: option.splits)

lemma getWord_set [simp]:
  "getWord (setWord h n w) x = (if x = n \<and> n \<noteq> None then Some w else getWord h x)"
  "getWord (setParent h n p) x = getWord h x"
  "getWord (setLeftChild h n p) x = getWord h x"
  "getWord (setRightChild h n p) x = getWord h x"
  "getWord (setColor h n c) x = getWord h x"
  by (auto simp: get_defs set_defs split: option.splits)

lemma get_eq_commute [simp]:
  "(Some a = getLeftChild h p) = (getLeftChild h p = Some a)"
  "(Some a = getRightChild h p) = (getRightChild h p = Some a)"
  "(Some a = getParent h p) = (getParent h p = Some a)"
  "(None = getLeftChild h p) = (getLeftChild h p = None)"
  "(None = getRightChild h p) = (getRightChild h p = None)"
  "(None = getParent h p) = (getParent h p = None)"
  by auto

lemma get_relink [simp]:
  "getParent (relinkL h par n m) x = getParent h x"
  "getColor (relinkL h par n m) x = getColor h x"
  "getWord (relinkL h par n m) x = getWord h x"
  "nxt (relinkL h par n m) = nxt h"
  "getParent (relinkR h par n m) x = getParent h x"
  "getColor (relinkR h par n m) x = getColor h x"
  "getWord (relinkR h par n m) x = getWord h x"
  "nxt (relinkR h par n m) = nxt h"
  by (simp_all add: relinkL_def relinkR_def)

lemma relink_other:
  "x \<noteq> par \<Longrightarrow> getLeftChild (relinkL h par n m) x = getLeftChild h x"
  "x \<noteq> par \<Longrightarrow> getRightChild (relinkL h par n m) x = getRightChild h x"
  "x \<noteq> par \<Longrightarrow> getLeftChild (relinkR h par n m) x = getLeftChild h x"
  "x \<noteq> par \<Longrightarrow> getRightChild (relinkR h par n m) x = getRightChild h x"
  by (simp_all add: relinkL_def relinkR_def)

subsection \<open>Rotations as a sequence of field writes\<close>

lemma leftRotate_eq:
  assumes "getRightChild h (Some n) = Some m" "n \<noteq> m"
    and "getLeftChild h (Some m) = bp" "bp \<noteq> Some n"
    and "getParent h (Some n) = par"
  shows "leftRotate h root (Some n) =
     (setParent (setLeftChild
        (relinkL (setParent (setParent (setRightChild h (Some n) bp) bp (Some n)) (Some m) par)
           par (Some n) (Some m))
        (Some m) (Some n)) (Some n) (Some m),
      if par = None then Some m else root)"
proof (cases par)
  case None
  with assms show ?thesis
    by (cases bp) (simp_all add: leftRotate_def Let_def relinkL_def)
next
  case (Some q)
  with assms show ?thesis
    by (cases bp) (simp_all add: leftRotate_def Let_def relinkL_def)
qed

lemma rightRotate_eq:
  assumes "getLeftChild h (Some n) = Some m" "n \<noteq> m"
    and "getRightChild h (Some m) = bp" "bp \<noteq> Some n"
    and "getParent h (Some n) = par"
  shows "rightRotate h root (Some n) =
     (setParent (setRightChild
        (relinkR (setParent (setParent (setLeftChild h (Some n) bp) bp (Some n)) (Some m) par)
           par (Some n) (Some m))
        (Some m) (Some n)) (Some n) (Some m),
      if par = None then Some m else root)"
proof (cases par)
  case None
  with assms show ?thesis
    by (cases bp) (simp_all add: rightRotate_def Let_def relinkR_def)
next
  case (Some q)
  with assms show ?thesis
    by (cases bp) (simp_all add: rightRotate_def Let_def relinkR_def)
qed

subsection \<open>Shapes, paths and frames\<close>

lemma is_tree_rootp: "is_tree h par p t \<Longrightarrow> p = rootp t"
  by (cases t) auto

lemma rootp_in: "rootp t = Some a \<Longrightarrow> a \<in> set (inorder t)"
  by (cases t) auto

lemma inorder_plug: "inorder (plug c s) = before c @ inorder s @ after c"
  by (induction c s rule: plug.induct) auto

lemma is_tree_plug:
  "is_tree h None root (plug c s) \<longleftrightarrow>
     (\<exists>par. is_path h root c par (rootp s) \<and> is_tree h par (rootp s) s)"
proof (induction c s rule: plug.induct)
  case (1 s)
  then show ?case by (auto dest: is_tree_rootp)
next
  case (2 a r c s)
  then show ?case by (auto dest: is_tree_rootp)
next
  case (3 l a c s)
  then show ?case by (auto dest: is_tree_rootp)
qed

lemma is_tree_frame:
  "\<forall>a\<in>set (inorder t). same_links h h' a \<Longrightarrow> is_tree h' par p t = is_tree h par p t"
  by (induction t arbitrary: par p) (auto simp: same_links_def)

lemma is_path_frame:
  "\<forall>a\<in>set (before c @ after c). same_links h h' a \<Longrightarrow>
   is_path h' root c par p = is_path h root c par p"
proof (induction c arbitrary: par p)
  case Nil
  then show ?case by simp
next
  case (Cons f c)
  show ?case
  proof (cases f)
    case (InL a r)
    with Cons.prems have sa: "same_links h h' a" and sr: "\<forall>b\<in>set (inorder r). same_links h h' b"
      and sc: "\<forall>b\<in>set (before c @ after c). same_links h h' b" by auto
    from Cons.IH[OF sc] is_tree_frame[OF sr] sa show ?thesis
      by (simp add: InL same_links_def)
  next
    case (InR l a)
    with Cons.prems have sa: "same_links h h' a" and sr: "\<forall>b\<in>set (inorder l). same_links h h' b"
      and sc: "\<forall>b\<in>set (before c @ after c). same_links h h' b" by auto
    from Cons.IH[OF sc] is_tree_frame[OF sr] sa show ?thesis
      by (simp add: InR same_links_def)
  qed
qed

lemma is_path_hole:
  assumes "is_path h root c par p"
    and "distinct (before c @ after c)"
    and "\<forall>a\<in>set (before c @ after c). Some a \<noteq> par \<longrightarrow> same_links h h' a"
    and "hole_ok h h' c p'"
  shows "is_path h' (if c = [] then p' else root) c par p'"
proof (cases c)
  case Nil
  with assms show ?thesis by simp
next
  case (Cons f c')
  show ?thesis
  proof (cases f)
    case (InL a r)
    from assms have par: "par = Some a" by (simp add: Cons InL)
    from assms(2) have d: "a \<notin> set (inorder r)" "a \<notin> set (before c' @ after c')"
      by (auto simp: Cons InL)
    from assms(3) d par have sr: "\<forall>b\<in>set (inorder r). same_links h h' b"
      and sc: "\<forall>b\<in>set (before c' @ after c'). same_links h h' b"
      by (auto simp: Cons InL)
    from assms(1,4) is_path_frame[OF sc] is_tree_frame[OF sr] show ?thesis
      by (simp add: Cons InL)
  next
    case (InR l a)
    from assms have par: "par = Some a" by (simp add: Cons InR)
    from assms(2) have d: "a \<notin> set (inorder l)" "a \<notin> set (before c' @ after c')"
      by (auto simp: Cons InR)
    from assms(3) d par have sr: "\<forall>b\<in>set (inorder l). same_links h h' b"
      and sc: "\<forall>b\<in>set (before c' @ after c'). same_links h h' b"
      by (auto simp: Cons InR)
    from assms(1,4) is_path_frame[OF sc] is_tree_frame[OF sr] show ?thesis
      by (simp add: Cons InR)
  qed
qed

lemma is_tree_reparent:
  assumes "is_tree h par p t" "distinct (inorder t)"
    and "\<forall>a\<in>set (inorder t). Some a \<noteq> p \<longrightarrow> same_links h h' a"
    and "p \<noteq> None \<longrightarrow> getParent h' p = par' \<and> getLeftChild h' p = getLeftChild h p \<and>
           getRightChild h' p = getRightChild h p"
  shows "is_tree h' par' p t"
proof (cases t)
  case Leaf
  with assms show ?thesis by simp
next
  case (Node l a r)
  from assms(1) have p: "p = Some a" by (simp add: Node)
  from assms(2,3) p have sl: "\<forall>b\<in>set (inorder l). same_links h h' b"
    and sr: "\<forall>b\<in>set (inorder r). same_links h h' b"
    by (auto simp: Node)
  from assms(1,4) p is_tree_frame[OF sl] is_tree_frame[OF sr] show ?thesis
    by (simp add: Node)
qed

lemma path_parent_notin:
  "is_path h root c par p \<Longrightarrow> par = Some q \<Longrightarrow> q \<in> set (before c @ after c)"
  by (cases c rule: before.cases) auto

subsection \<open>Rotations on shapes\<close>

lemma leftRotate_shape:
  assumes path: "is_path h root c par (Some n)"
    and tree: "is_tree h par (Some n) (Node A n (Node B m C))"
    and dist: "distinct (before c @ inorder (Node A n (Node B m C)) @ after c)"
  shows "\<exists>h'. leftRotate h root (Some n) = (h', if c = [] then Some m else root) \<and>
           is_path h' (if c = [] then Some m else root) c par (Some m) \<and>
           is_tree h' par (Some m) (Node (Node A n B) m C) \<and>
           nxt h' = nxt h \<and>
           (\<forall>x. getColor h' x = getColor h x \<and> getWord h' x = getWord h x)"
proof -
  define bp where "bp = rootp B"
  define h' where "h' = setParent (setLeftChild
        (relinkL (setParent (setParent (setRightChild h (Some n) bp) bp (Some n)) (Some m) par)
           par (Some n) (Some m))
        (Some m) (Some n)) (Some n) (Some m)"
  from tree have pn: "getParent h (Some n) = par"
    and tA: "is_tree h (Some n) (getLeftChild h (Some n)) A"
    and rn: "getRightChild h (Some n) = Some m"
    and pm: "getParent h (Some m) = Some n"
    and tB: "is_tree h (Some m) (getLeftChild h (Some m)) B"
    and tC: "is_tree h (Some m) (getRightChild h (Some m)) C"
    by auto
  from tB have lm: "getLeftChild h (Some m) = bp"
    unfolding bp_def by (rule is_tree_rootp)
  from dist have nm: "n \<noteq> m" by auto
  have bpB: "\<And>b. bp = Some b \<Longrightarrow> b \<in> set (inorder B)"
    unfolding bp_def by (rule rootp_in)
  with dist have bpn: "bp \<noteq> Some n" and bpm: "bp \<noteq> Some m" by auto
  have parc: "\<And>q. par = Some q \<Longrightarrow> q \<in> set (before c @ after c)"
    using path by (rule path_parent_notin)
  with dist have parn: "par \<noteq> Some n" and parm: "par \<noteq> Some m" by auto
  from parc bpB dist have parbp: "par = None \<or> par \<noteq> bp" by (cases par) auto
  have cnil: "c = [] \<longleftrightarrow> par = None" using path by (cases c rule: before.cases) auto
  have eq: "leftRotate h root (Some n) = (h', if c = [] then Some m else root)"
    unfolding h'_def cnil using rn nm lm bpn pn by (rule leftRotate_eq)
  have other: "same_links h h' a" if "a \<noteq> n" "a \<noteq> m" "Some a \<noteq> bp" "Some a \<noteq> par" for a
    using that by (simp add: same_links_def h'_def relink_other)
  have gn: "getParent h' (Some n) = Some m" "getLeftChild h' (Some n) = getLeftChild h (Some n)"
    "getRightChild h' (Some n) = bp"
    using nm parn bpn by (simp_all add: h'_def relink_other)
  have gm: "getParent h' (Some m) = par" "getLeftChild h' (Some m) = Some n"
    "getRightChild h' (Some m) = getRightChild h (Some m)"
    using nm parm bpm by (simp_all add: h'_def relink_other)
  have gb: "bp \<noteq> None \<longrightarrow> getParent h' bp = Some n \<and> getLeftChild h' bp = getLeftChild h bp \<and>
           getRightChild h' bp = getRightChild h bp"
    using bpn bpm parbp by (auto simp add: h'_def relink_other)
  have A': "is_tree h' (Some n) (getLeftChild h (Some n)) A"
  proof -
    have "\<forall>a\<in>set (inorder A). same_links h h' a"
      using dist bpB parc by (auto intro!: other)
    from is_tree_frame[OF this] tA show ?thesis by simp
  qed
  have C': "is_tree h' (Some m) (getRightChild h (Some m)) C"
  proof -
    have "\<forall>a\<in>set (inorder C). same_links h h' a"
      using dist bpB parc by (auto intro!: other)
    from is_tree_frame[OF this] tC show ?thesis by simp
  qed
  have B': "is_tree h' (Some n) bp B"
  proof (rule is_tree_reparent[OF tB[unfolded lm]])
    show "distinct (inorder B)" using dist by simp
    show "\<forall>a\<in>set (inorder B). Some a \<noteq> bp \<longrightarrow> same_links h h' a"
      using dist parc by (auto intro!: other)
    show "bp \<noteq> None \<longrightarrow> getParent h' bp = Some n \<and> getLeftChild h' bp = getLeftChild h bp \<and>
           getRightChild h' bp = getRightChild h bp" by (rule gb)
  qed
  have T': "is_tree h' par (Some m) (Node (Node A n B) m C)"
    using A' B' C' gn gm by simp
  have P': "is_path h' (if c = [] then Some m else root) c par (Some m)"
  proof (rule is_path_hole[OF path])
    show "distinct (before c @ after c)" using dist by auto
    show "\<forall>a\<in>set (before c @ after c). Some a \<noteq> par \<longrightarrow> same_links h h' a"
      using dist bpB by (auto intro!: other)
    show "hole_ok h h' c (Some m)"
    proof (cases c rule: before.cases)
      case 1
      then show ?thesis by simp
    next
      case (2 q r c')
      with path have "par = Some q" "getLeftChild h (Some q) = Some n" by auto
      with parn parm bpB dist 2 show ?thesis
        by (auto simp: h'_def relinkL_def)
    next
      case (3 l q c')
      with path have q: "par = Some q" "getRightChild h (Some q) = Some n"
        "is_tree h (Some q) (getLeftChild h (Some q)) l" by auto
      from q(3) have "getLeftChild h (Some q) = rootp l" by (rule is_tree_rootp)
      with dist 3 have "getLeftChild h (Some q) \<noteq> Some n" by (auto dest: rootp_in)
      with q parn parm bpB dist 3 show ?thesis
        by (auto simp: h'_def relinkL_def)
    qed
  qed
  have "nxt h' = nxt h" by (simp add: h'_def)
  moreover have "\<forall>x. getColor h' x = getColor h x \<and> getWord h' x = getWord h x"
    by (simp add: h'_def)
  ultimately show ?thesis using eq T' P' by blast
qed

lemma rightRotate_shape:
  assumes path: "is_path h root c par (Some n)"
    and tree: "is_tree h par (Some n) (Node (Node A m B) n C)"
    and dist: "distinct (before c @ inorder (Node (Node A m B) n C) @ after c)"
  shows "\<exists>h'. rightRotate h root (Some n) = (h', if c = [] then Some m else root) \<and>
           is_path h' (if c = [] then Some m else root) c par (Some m) \<and>
           is_tree h' par (Some m) (Node A m (Node B n C)) \<and>
           nxt h' = nxt h \<and>
           (\<forall>x. getColor h' x = getColor h x \<and> getWord h' x = getWord h x)"
proof -
  define bp where "bp = rootp B"
  define h' where "h' = setParent (setRightChild
        (relinkR (setParent (setParent (setLeftChild h (Some n) bp) bp (Some n)) (Some m) par)
           par (Some n) (Some m))
        (Some m) (Some n)) (Some n) (Some m)"
  from tree have pn: "getParent h (Some n) = par"
    and tC: "is_tree h (Some n) (getRightChild h (Some n)) C"
    and ln: "getLeftChild h (Some n) = Some m"
    and pm: "getParent h (Some m) = Some n"
    and tB: "is_tree h (Some m) (getRightChild h (Some m)) B"
    and tA: "is_tree h (Some m) (getLeftChild h (Some m)) A"
    by auto
  from tB have rm: "getRightChild h (Some m) = bp"
    unfolding bp_def by (rule is_tree_rootp)
  from dist have nm: "n \<noteq> m" by auto
  have bpB: "\<And>b. bp = Some b \<Longrightarrow> b \<in> set (inorder B)"
    unfolding bp_def by (rule rootp_in)
  with dist have bpn: "bp \<noteq> Some n" and bpm: "bp \<noteq> Some m" by auto
  have parc: "\<And>q. par = Some q \<Longrightarrow> q \<in> set (before c @ after c)"
    using path by (rule path_parent_notin)
  with dist have parn: "par \<noteq> Some n" and parm: "par \<noteq> Some m" by auto
  from parc bpB dist have parbp: "par = None \<or> par \<noteq> bp" by (cases par) auto
  have cnil: "c = [] \<longleftrightarrow> par = None" using path by (cases c rule: before.cases) auto
  have eq: "rightRotate h root (Some n) = (h', if c = [] then Some m else root)"
    unfolding h'_def cnil using ln nm rm bpn pn by (rule rightRotate_eq)
  have other: "same_links h h' a" if "a \<noteq> n" "a \<noteq> m" "Some a \<noteq> bp" "Some a \<noteq> par" for a
    using that by (simp add: same_links_def h'_def relink_other)
  have gn: "getParent h' (Some n) = Some m" "getRightChild h' (Some n) = getRightChild h (Some n)"
    "getLeftChild h' (Some n) = bp"
    using nm parn bpn by (simp_all add: h'_def relink_other)
  have gm: "getParent h' (Some m) = par" "getRightChild h' (Some m) = Some n"
    "getLeftChild h' (Some m) = getLeftChild h (Some m)"
    using nm parm bpm by (simp_all add: h'_def relink_other)
  have gb: "bp \<noteq> None \<longrightarrow> getParent h' bp = Some n \<and> getLeftChild h' bp = getLeftChild h bp \<and>
           getRightChild h' bp = getRightChild h bp"
    using bpn bpm parbp by (auto simp add: h'_def relink_other)
  have A': "is_tree h' (Some m) (getLeftChild h (Some m)) A"
  proof -
    have "\<forall>a\<in>set (inorder A). same_links h h' a"
      using dist bpB parc by (auto intro!: other)
    from is_tree_frame[OF this] tA show ?thesis by simp
  qed
  have C': "is_tree h' (Some n) (getRightChild h (Some n)) C"
  proof -
    have "\<forall>a\<in>set (inorder C). same_links h h' a"
      using dist bpB parc by (auto intro!: other)
    from is_tree_frame[OF this] tC show ?thesis by simp
  qed
  have B': "is_tree h' (Some n) bp B"
  proof (rule is_tree_reparent[OF tB[unfolded rm]])
    show "distinct (inorder B)" using dist by simp
    show "\<forall>a\<in>set (inorder B). Some a \<noteq> bp \<longrightarrow> same_links h h' a"
      using dist parc by (auto intro!: other)
    show "bp \<noteq> None \<longrightarrow> getParent h' bp = Some n \<and> getLeftChild h' bp = getLeftChild h bp \<and>
           getRightChild h' bp = getRightChild h bp" by (rule gb)
  qed
  have T': "is_tree h' par (Some m) (Node A m (Node B n C))"
    using A' B' C' gn gm by simp
  have P': "is_path h' (if c = [] then Some m else root) c par (Some m)"
  proof (rule is_path_hole[OF path])
    show "distinct (before c @ after c)" using dist by auto
    show "\<forall>a\<in>set (before c @ after c). Some a \<noteq> par \<longrightarrow> same_links h h' a"
      using dist bpB by (auto intro!: other)
    show "hole_ok h h' c (Some m)"
    proof (cases c rule: before.cases)
      case 1
      then show ?thesis by simp
    next
      case (2 q r c')
      with path have q: "par = Some q" "getLeftChild h (Some q) = Some n"
        "is_tree h (Some q) (getRightChild h (Some q)) r" by auto
      from q(3) have "getRightChild h (Some q) = rootp r" by (rule is_tree_rootp)
      with dist 2 have "getRightChild h (Some q) \<noteq> Some n" by (auto dest: rootp_in)
      with q parn parm bpB dist 2 show ?thesis
        by (auto simp: h'_def relinkR_def)
    next
      case (3 l q c')
      with path have "par = Some q" "getRightChild h (Some q) = Some n" by auto
      with parn parm bpB dist 3 show ?thesis
        by (auto simp: h'_def relinkR_def)
    qed
  qed
  have "nxt h' = nxt h" by (simp add: h'_def)
  moreover have "\<forall>x. getColor h' x = getColor h x \<and> getWord h' x = getWord h x"
    by (simp add: h'_def)
  ultimately show ?thesis using eq T' P' by blast
qed

lemma rotate_color:
  "getColor (fst (leftRotate h root n)) x = getColor h x"
  "getColor (fst (rightRotate h root n)) x = getColor h x"
  by (simp_all add: leftRotate_def rightRotate_def Let_def split_def)

lemma fixup_stop: "getColor h parent \<noteq> CHR ''r'' \<Longrightarrow> fixup h root ptr parent = Some (h, root)"
  by (subst fixup.simps) simp

subsection \<open>One pass of the fixup loop\<close>

lemma getGrandparent_eq: "getGrandparent h x = getParent h (getParent h x)"
  by (simp add: getGrandparent_def getParent_def split: option.splits)

lemma is_tree_setColor [simp]: "is_tree (setColor h x c) par p t = is_tree h par p t"
  by (rule is_tree_frame) (simp add: same_links_def)

lemma is_path_setColor [simp]: "is_path (setColor h x c) root k par p = is_path h root k par p"
  by (rule is_path_frame) (simp add: same_links_def)

lemma fixup_caseA:
  assumes "ptr \<noteq> root" "getColor h parent = CHR ''r''"
    and "getColor h (getUncle h ptr) = CHR ''r''"
    and "getGrandparent h ptr \<noteq> parent"
  shows "fixup h root ptr parent =
     Some (setColor (setColor (setColor h parent (CHR ''b'')) (getUncle h ptr) (CHR ''b''))
             (getGrandparent h ptr) (CHR ''r''), root)"
proof -
  from assms(2) have "parent \<noteq> None" by (cases parent) simp_all
  with assms show ?thesis
    by (subst fixup.simps) (auto simp add: Let_def fixup_stop)
qed

lemma fixup_caseB_left:
  assumes "ptr \<noteq> root" "getColor h parent = CHR ''r''"
    and "getUncle h ptr = getRightChild h (getGrandparent h ptr)"
    and "getColor h (getUncle h ptr) \<noteq> CHR ''r''"
    and "getGrandparent h ptr \<noteq> parent"
  shows "fixup h root ptr parent =
     (let (h1, root1) = (if ptr = getRightChild h parent then leftRotate h root parent
                         else (h, root));
          h2 = setColor (setColor h1 parent (CHR ''b'')) (getGrandparent h ptr) (CHR ''r'')
      in Some (rightRotate h2 root1 (getGrandparent h ptr)))"
proof -
  from assms(2) have "parent \<noteq> None" by (cases parent) simp_all
  with assms show ?thesis
    by (subst fixup.simps) (auto simp add: Let_def split_def fixup_stop rotate_color)
qed

lemma fixup_caseB_right:
  assumes "ptr \<noteq> root" "getColor h parent = CHR ''r''"
    and "getUncle h ptr \<noteq> getRightChild h (getGrandparent h ptr)"
    and "getColor h (getUncle h ptr) \<noteq> CHR ''r''"
    and "getGrandparent h ptr \<noteq> parent"
  shows "fixup h root ptr parent =
     (let (h1, root1) = (if ptr = getLeftChild h parent then rightRotate h root parent
                         else (h, root));
          h2 = setColor (setColor h1 parent (CHR ''b'')) (getGrandparent h ptr) (CHR ''r'')
      in Some (leftRotate h2 root1 (getGrandparent h ptr)))"
proof -
  from assms(2) have "parent \<noteq> None" by (cases parent) simp_all
  with assms show ?thesis
    by (subst fixup.simps) (auto simp add: Let_def split_def fixup_stop rotate_color)
qed

lemma path_root_in:
  "is_path h root c par p \<Longrightarrow> c \<noteq> [] \<Longrightarrow> \<exists>r. root = Some r \<and> r \<in> set (before c @ after c)"
proof (induction c arbitrary: par p)
  case Nil
  then show ?case by simp
next
  case (Cons f c)
  show ?case
  proof (cases "c = []")
    case True
    with Cons.prems show ?thesis by (cases f) auto
  next
    case False
    from Cons.prems obtain par' p' where "is_path h root c par' p'" by (cases f) auto
    from Cons.IH[OF this False] show ?thesis by (cases f) auto
  qed
qed

subsection \<open>The fixup loop below the new node\<close>

lemma is_path_par: "is_path h root c par p \<Longrightarrow> par = (case c of [] \<Rightarrow> None | InL a r # _ \<Rightarrow> Some a | InR l a # _ \<Rightarrow> Some a)"
  by (cases c rule: before.cases) auto

lemma fix_postI:
  assumes "res = Some (h', root')" "is_path h' root' c gpar (rootp sub')"
    "is_tree h' gpar (rootp sub') sub'" "inorder sub' = xs"
    "root' = (if c = [] then rootp sub' else root)" "nxt h' = nxt h"
    "\<forall>x. getWord h' x = getWord h x"
  shows "fix_post h root c gpar xs res"
  unfolding fix_post_def using assms by blast

lemma fixup_LL:
  assumes path: "is_path h root c gpar (Some G)"
    and tree: "is_tree h gpar (Some G) (Node (Node (Node NL N NR) P S) G U)"
    and dist: "distinct (before c @ inorder (Node (Node (Node NL N NR) P S) G U) @ after c)"
    and red: "getColor h (Some P) = CHR ''r''"
  shows "fix_post h root c gpar (inorder (Node (Node (Node NL N NR) P S) G U))
           (fixup h root (Some N) (Some P))"
proof -
  from tree have links: "getParent h (Some N) = Some P" "getParent h (Some P) = Some G"
    "getLeftChild h (Some G) = Some P" "getLeftChild h (Some P) = Some N"
    and tS: "is_tree h (Some P) (getRightChild h (Some P)) S"
    and tU: "is_tree h (Some G) (getRightChild h (Some G)) U"
    by auto
  have gp: "getGrandparent h (Some N) = Some G" by (simp add: getGrandparent_eq links)
  from tU have rU: "getRightChild h (Some G) = rootp U" by (rule is_tree_rootp)
  from tS have rS: "getRightChild h (Some P) = rootp S" by (rule is_tree_rootp)
  have un: "getUncle h (Some N) = rootp U" by (simp add: getUncle_def gp links rU)
  have Nroot: "Some N \<noteq> root"
  proof (cases "c = []")
    case True
    with path dist show ?thesis by auto
  next
    case False
    from path_root_in[OF path False] dist show ?thesis by auto
  qed
  have gpP: "getGrandparent h (Some N) \<noteq> Some P" using dist by (simp add: gp)
  have rootc: "c = [] \<Longrightarrow> root = Some G" using path by simp
  show ?thesis
  proof (cases "getColor h (rootp U) = CHR ''r''")
    case True
    define hA where "hA = setColor (setColor (setColor h (Some P) (CHR ''b'')) (rootp U) (CHR ''b''))
             (Some G) (CHR ''r'')"
    from fixup_caseA[OF Nroot red _ gpP] True
    have eq: "fixup h root (Some N) (Some P) = Some (hA, root)"
      by (simp add: un gp hA_def)
    show ?thesis
      by (rule fix_postI[OF eq, where sub' = "Node (Node (Node NL N NR) P S) G U"])
        (use path tree rootc in \<open>simp_all add: hA_def\<close>)
  next
    case False
    define h2 where "h2 = setColor (setColor h (Some P) (CHR ''b'')) (Some G) (CHR ''r'')"
    from dist have "Some N \<noteq> rootp S" by (auto dest: rootp_in[OF sym])
    with fixup_caseB_left[OF Nroot red _ _ gpP] False
    have eq: "fixup h root (Some N) (Some P) = Some (rightRotate h2 root (Some G))"
      by (simp add: un gp rU rS h2_def)
    have p2: "is_path h2 root c gpar (Some G)" using path by (simp add: h2_def)
    have t2: "is_tree h2 gpar (Some G) (Node (Node (Node NL N NR) P S) G U)"
      using tree unfolding h2_def is_tree_setColor .
    from rightRotate_shape[OF p2 t2 dist] obtain h' where
      r: "rightRotate h2 root (Some G) = (h', if c = [] then Some P else root)"
      and p': "is_path h' (if c = [] then Some P else root) c gpar (Some P)"
      and t': "is_tree h' gpar (Some P) (Node (Node NL N NR) P (Node S G U))"
      and n': "nxt h' = nxt h2"
      and w': "\<forall>x. getColor h' x = getColor h2 x \<and> getWord h' x = getWord h2 x"
      by blast
    from eq r have eq': "fixup h root (Some N) (Some P) = Some (h', if c = [] then Some P else root)"
      by simp
    show ?thesis
      by (rule fix_postI[OF eq', where sub' = "Node (Node NL N NR) P (Node S G U)"])
        (use p' t' n' w' in \<open>simp_all add: h2_def\<close>)
  qed
qed

lemma fixup_LR:
  assumes path: "is_path h root c gpar (Some G)"
    and tree: "is_tree h gpar (Some G) (Node (Node S P (Node NL N NR)) G U)"
    and dist: "distinct (before c @ inorder (Node (Node S P (Node NL N NR)) G U) @ after c)"
    and red: "getColor h (Some P) = CHR ''r''"
  shows "fix_post h root c gpar (inorder (Node (Node S P (Node NL N NR)) G U))
           (fixup h root (Some N) (Some P))"
proof -
  from tree have links: "getParent h (Some N) = Some P" "getParent h (Some P) = Some G"
    "getLeftChild h (Some G) = Some P" "getRightChild h (Some P) = Some N"
    "getParent h (Some G) = gpar"
    and tP: "is_tree h (Some G) (Some P) (Node S P (Node NL N NR))"
    and tU: "is_tree h (Some G) (getRightChild h (Some G)) U"
    by auto
  have gp: "getGrandparent h (Some N) = Some G" by (simp add: getGrandparent_eq links)
  from tU have rU: "getRightChild h (Some G) = rootp U" by (rule is_tree_rootp)
  have un: "getUncle h (Some N) = rootp U" by (simp add: getUncle_def gp links rU)
  have Nroot: "Some N \<noteq> root"
  proof (cases "c = []")
    case True
    with path dist show ?thesis by auto
  next
    case False
    from path_root_in[OF path False] dist show ?thesis by auto
  qed
  have gpP: "getGrandparent h (Some N) \<noteq> Some P" using dist by (simp add: gp)
  have rootc: "c = [] \<Longrightarrow> root = Some G" using path by simp
  show ?thesis
  proof (cases "getColor h (rootp U) = CHR ''r''")
    case True
    define hA where "hA = setColor (setColor (setColor h (Some P) (CHR ''b'')) (rootp U) (CHR ''b''))
             (Some G) (CHR ''r'')"
    from fixup_caseA[OF Nroot red _ gpP] True
    have eq: "fixup h root (Some N) (Some P) = Some (hA, root)"
      by (simp add: un gp hA_def)
    show ?thesis
      by (rule fix_postI[OF eq, where sub' = "Node (Node S P (Node NL N NR)) G U"])
        (use path tree rootc in \<open>simp_all add: hA_def\<close>)
  next
    case False
    have p1: "is_path h root (InL G U # c) (Some G) (Some P)"
      using path tU links by simp
    have d1: "distinct (before (InL G U # c) @ inorder (Node S P (Node NL N NR)) @
                after (InL G U # c))"
      using dist by simp
    from leftRotate_shape[OF p1 tP d1] obtain h1 where
      r1: "leftRotate h root (Some P) = (h1, root)"
      and p1': "is_path h1 root (InL G U # c) (Some G) (Some N)"
      and t1': "is_tree h1 (Some G) (Some N) (Node (Node S P NL) N NR)"
      and n1: "nxt h1 = nxt h"
      and w1: "\<forall>x. getColor h1 x = getColor h x \<and> getWord h1 x = getWord h x"
      by auto
    define h2 where "h2 = setColor (setColor h1 (Some P) (CHR ''b'')) (Some G) (CHR ''r'')"
    from fixup_caseB_left[OF Nroot red _ _ gpP] False
    have eq: "fixup h root (Some N) (Some P) = Some (rightRotate h2 root (Some G))"
      by (simp add: un gp rU links r1 h2_def)
    from p1' have pc: "is_path h1 root c (getParent h1 (Some G)) (Some G)" by simp
    from is_path_par[OF pc] is_path_par[OF path] have g1: "getParent h1 (Some G) = gpar" by simp
    have p2: "is_path h2 root c gpar (Some G)" using pc g1 by (simp add: h2_def)
    have "is_tree h1 gpar (Some G) (Node (Node (Node S P NL) N NR) G U)"
      using p1' t1' g1 by simp
    then have t2: "is_tree h2 gpar (Some G) (Node (Node (Node S P NL) N NR) G U)"
      unfolding h2_def is_tree_setColor .
    have d2: "distinct (before c @ inorder (Node (Node (Node S P NL) N NR) G U) @ after c)"
      using dist by simp
    from rightRotate_shape[OF p2 t2 d2] obtain h' where
      r: "rightRotate h2 root (Some G) = (h', if c = [] then Some N else root)"
      and p': "is_path h' (if c = [] then Some N else root) c gpar (Some N)"
      and t': "is_tree h' gpar (Some N) (Node (Node S P NL) N (Node NR G U))"
      and n': "nxt h' = nxt h2"
      and w': "\<forall>x. getColor h' x = getColor h2 x \<and> getWord h' x = getWord h2 x"
      by blast
    from eq r have eq': "fixup h root (Some N) (Some P) = Some (h', if c = [] then Some N else root)"
      by simp
    show ?thesis
      by (rule fix_postI[OF eq', where sub' = "Node (Node S P NL) N (Node NR G U)"])
        (use p' t' n' w' n1 w1 in \<open>simp_all add: h2_def\<close>)
  qed
qed

lemma fixup_RR:
  assumes path: "is_path h root c gpar (Some G)"
    and tree: "is_tree h gpar (Some G) (Node U G (Node S P (Node NL N NR)))"
    and dist: "distinct (before c @ inorder (Node U G (Node S P (Node NL N NR))) @ after c)"
    and red: "getColor h (Some P) = CHR ''r''"
  shows "fix_post h root c gpar (inorder (Node U G (Node S P (Node NL N NR))))
           (fixup h root (Some N) (Some P))"
proof -
  from tree have links: "getParent h (Some N) = Some P" "getParent h (Some P) = Some G"
    "getRightChild h (Some G) = Some P" "getRightChild h (Some P) = Some N"
    and tS: "is_tree h (Some P) (getLeftChild h (Some P)) S"
    and tU: "is_tree h (Some G) (getLeftChild h (Some G)) U"
    by auto
  have gp: "getGrandparent h (Some N) = Some G" by (simp add: getGrandparent_eq links)
  from tU have lU: "getLeftChild h (Some G) = rootp U" by (rule is_tree_rootp)
  from tS have lS: "getLeftChild h (Some P) = rootp S" by (rule is_tree_rootp)
  from dist have UP: "rootp U \<noteq> Some P" by (auto dest: rootp_in)
  then have un: "getUncle h (Some N) = rootp U" by (simp add: getUncle_def gp links lU)
  have Nroot: "Some N \<noteq> root"
  proof (cases "c = []")
    case True
    with path dist show ?thesis by auto
  next
    case False
    from path_root_in[OF path False] dist show ?thesis by auto
  qed
  have gpP: "getGrandparent h (Some N) \<noteq> Some P" using dist by (simp add: gp)
  have rootc: "c = [] \<Longrightarrow> root = Some G" using path by simp
  show ?thesis
  proof (cases "getColor h (rootp U) = CHR ''r''")
    case True
    define hA where "hA = setColor (setColor (setColor h (Some P) (CHR ''b'')) (rootp U) (CHR ''b''))
             (Some G) (CHR ''r'')"
    from fixup_caseA[OF Nroot red _ gpP] True
    have eq: "fixup h root (Some N) (Some P) = Some (hA, root)"
      by (simp add: un gp hA_def)
    show ?thesis
      by (rule fix_postI[OF eq, where sub' = "Node U G (Node S P (Node NL N NR))"])
        (use path tree rootc in \<open>simp_all add: hA_def\<close>)
  next
    case False
    define h2 where "h2 = setColor (setColor h (Some P) (CHR ''b'')) (Some G) (CHR ''r'')"
    from dist have "Some N \<noteq> rootp S" by (auto dest: rootp_in[OF sym])
    with fixup_caseB_right[OF Nroot red _ _ gpP] False UP
    have eq: "fixup h root (Some N) (Some P) = Some (leftRotate h2 root (Some G))"
      by (simp add: un gp links lS h2_def)
    have p2: "is_path h2 root c gpar (Some G)" using path by (simp add: h2_def)
    have t2: "is_tree h2 gpar (Some G) (Node U G (Node S P (Node NL N NR)))"
      using tree unfolding h2_def is_tree_setColor .
    from leftRotate_shape[OF p2 t2 dist] obtain h' where
      r: "leftRotate h2 root (Some G) = (h', if c = [] then Some P else root)"
      and p': "is_path h' (if c = [] then Some P else root) c gpar (Some P)"
      and t': "is_tree h' gpar (Some P) (Node (Node U G S) P (Node NL N NR))"
      and n': "nxt h' = nxt h2"
      and w': "\<forall>x. getColor h' x = getColor h2 x \<and> getWord h' x = getWord h2 x"
      by blast
    from eq r have eq': "fixup h root (Some N) (Some P) = Some (h', if c = [] then Some P else root)"
      by simp
    show ?thesis
      by (rule fix_postI[OF eq', where sub' = "Node (Node U G S) P (Node NL N NR)"])
        (use p' t' n' w' in \<open>simp_all add: h2_def\<close>)
  qed
qed

lemma fixup_RL:
  assumes path: "is_path h root c gpar (Some G)"
    and tree: "is_tree h gpar (Some G) (Node U G (Node (Node NL N NR) P S))"
    and dist: "distinct (before c @ inorder (Node U G (Node (Node NL N NR) P S)) @ after c)"
    and red: "getColor h (Some P) = CHR ''r''"
  shows "fix_post h root c gpar (inorder (Node U G (Node (Node NL N NR) P S)))
           (fixup h root (Some N) (Some P))"
proof -
  from tree have links: "getParent h (Some N) = Some P" "getParent h (Some P) = Some G"
    "getRightChild h (Some G) = Some P" "getLeftChild h (Some P) = Some N"
    "getParent h (Some G) = gpar"
    and tP: "is_tree h (Some G) (Some P) (Node (Node NL N NR) P S)"
    and tU: "is_tree h (Some G) (getLeftChild h (Some G)) U"
    by auto
  have gp: "getGrandparent h (Some N) = Some G" by (simp add: getGrandparent_eq links)
  from tU have lU: "getLeftChild h (Some G) = rootp U" by (rule is_tree_rootp)
  from dist have UP: "rootp U \<noteq> Some P" by (auto dest: rootp_in)
  then have un: "getUncle h (Some N) = rootp U" by (simp add: getUncle_def gp links lU)
  have Nroot: "Some N \<noteq> root"
  proof (cases "c = []")
    case True
    with path dist show ?thesis by auto
  next
    case False
    from path_root_in[OF path False] dist show ?thesis by auto
  qed
  have gpP: "getGrandparent h (Some N) \<noteq> Some P" using dist by (simp add: gp)
  have rootc: "c = [] \<Longrightarrow> root = Some G" using path by simp
  show ?thesis
  proof (cases "getColor h (rootp U) = CHR ''r''")
    case True
    define hA where "hA = setColor (setColor (setColor h (Some P) (CHR ''b'')) (rootp U) (CHR ''b''))
             (Some G) (CHR ''r'')"
    from fixup_caseA[OF Nroot red _ gpP] True
    have eq: "fixup h root (Some N) (Some P) = Some (hA, root)"
      by (simp add: un gp hA_def)
    show ?thesis
      by (rule fix_postI[OF eq, where sub' = "Node U G (Node (Node NL N NR) P S)"])
        (use path tree rootc in \<open>simp_all add: hA_def\<close>)
  next
    case False
    have p1: "is_path h root (InR U G # c) (Some G) (Some P)"
      using path tU links by simp
    have d1: "distinct (before (InR U G # c) @ inorder (Node (Node NL N NR) P S) @
                after (InR U G # c))"
      using dist by simp
    from rightRotate_shape[OF p1 tP d1] obtain h1 where
      r1: "rightRotate h root (Some P) = (h1, root)"
      and p1': "is_path h1 root (InR U G # c) (Some G) (Some N)"
      and t1': "is_tree h1 (Some G) (Some N) (Node NL N (Node NR P S))"
      and n1: "nxt h1 = nxt h"
      and w1: "\<forall>x. getColor h1 x = getColor h x \<and> getWord h1 x = getWord h x"
      by auto
    define h2 where "h2 = setColor (setColor h1 (Some P) (CHR ''b'')) (Some G) (CHR ''r'')"
    from fixup_caseB_right[OF Nroot red _ _ gpP] False UP
    have eq: "fixup h root (Some N) (Some P) = Some (leftRotate h2 root (Some G))"
      by (simp add: un gp links r1 h2_def)
    from p1' have pc: "is_path h1 root c (getParent h1 (Some G)) (Some G)" by simp
    from is_path_par[OF pc] is_path_par[OF path] have g1: "getParent h1 (Some G) = gpar" by simp
    have p2: "is_path h2 root c gpar (Some G)" using pc g1 by (simp add: h2_def)
    have "is_tree h1 gpar (Some G) (Node U G (Node NL N (Node NR P S)))"
      using p1' t1' g1 by simp
    then have t2: "is_tree h2 gpar (Some G) (Node U G (Node NL N (Node NR P S)))"
      unfolding h2_def is_tree_setColor .
    have d2: "distinct (before c @ inorder (Node U G (Node NL N (Node NR P S))) @ after c)"
      using dist by simp
    from leftRotate_shape[OF p2 t2 d2] obtain h' where
      r: "leftRotate h2 root (Some G) = (h', if c = [] then Some N else root)"
      and p': "is_path h' (if c = [] then Some N else root) c gpar (Some N)"
      and t': "is_tree h' gpar (Some N) (Node (Node U G NL) N (Node NR P S))"
      and n': "nxt h' = nxt h2"
      and w': "\<forall>x. getColor h' x = getColor h2 x \<and> getWord h' x = getWord h2 x"
      by blast
    from eq r have eq': "fixup h root (Some N) (Some P) = Some (h', if c = [] then Some N else root)"
      by simp
    show ?thesis
      by (rule fix_postI[OF eq', where sub' = "Node (Node U G NL) N (Node NR P S)"])
        (use p' t' n' w' n1 w1 in \<open>simp_all add: h2_def\<close>)
  qed
qed

subsection \<open>strcmp and the order on strings\<close>

lemma of_char_eq_iff': "(of_char x :: nat) = of_char y \<longleftrightarrow> x = y"
  by (metis char_of_char)

lemma strcmp_less: "strcmp a b < 0 \<longleftrightarrow> a < b"
proof (induction a b rule: strcmp.induct)
  case (4 x xs y ys)
  then show ?case by (auto simp: less_char_def of_char_eq_iff')
qed simp_all

lemma strcmp_eq: "strcmp a b = 0 \<longleftrightarrow> a = b"
proof (induction a b rule: strcmp.induct)
  case (4 x xs y ys)
  then show ?case by (auto simp: of_char_eq_iff')
qed simp_all

lemma strcmp_greater: "\<not> strcmp a b < 0 \<Longrightarrow> strcmp a b \<noteq> 0 \<Longrightarrow> strcmp b a < 0"
  by (auto simp: strcmp_less strcmp_eq)

lemma strcmp_trans: "strcmp a b < 0 \<Longrightarrow> strcmp b c < 0 \<Longrightarrow> strcmp a c < 0"
  by (auto simp: strcmp_less)

subsection \<open>The descent\<close>

lemma descend_shape:
  assumes "is_tree h par p s" "is_path h root c par p" "dir_ok c cmp"
  shows "case descend h w p par cmp of
           None \<Rightarrow> False
         | Some Found \<Rightarrow> w \<in> key h ` set (inorder s)
         | Some (Fell par' cmp') \<Rightarrow>
             (\<exists>c'. plug c s = plug c' Leaf \<and> is_path h root c' par' None \<and> dir_ok c' cmp' \<and>
               (bst h (plug c s) \<and> ctx_bounds h w c \<longrightarrow> ctx_bounds h w c'))"
  using assms
proof (induction s arbitrary: c par p cmp)
  case Leaf
  then have "p = None" by simp
  with Leaf show ?case
    by (subst descend.simps) auto
next
  case (Node l a r)
  from Node.prems have p: "p = Some a" and pa: "getParent h (Some a) = par"
    and tl: "is_tree h (Some a) (getLeftChild h (Some a)) l"
    and tr: "is_tree h (Some a) (getRightChild h (Some a)) r" by auto
  have kw: "the (getWord h (Some a)) = key h a" by (simp add: key_def)
  show ?case
  proof (cases "strcmp w (key h a) = 0")
    case True
    then have "w = key h a" by (simp add: strcmp_eq)
    with True p show ?thesis
      by (subst descend.simps) (simp add: kw Let_def)
  next
    case ne: False
    show ?thesis
    proof (cases "strcmp w (key h a) < 0")
      case True
      have path': "is_path h root (InL a r # c) (Some a) (getLeftChild h (Some a))"
        using Node.prems(2) p pa tr by simp
      have d: "descend h w p par cmp =
          descend h w (getLeftChild h (Some a)) (Some a) (strcmp w (key h a))"
        using True ne p by (subst descend.simps) (simp add: kw Let_def)
      have b: "ctx_bounds h w (InL a r # c)"
        if "bst h (plug c (Node l a r))" "ctx_bounds h w c"
        using that True
        by (auto simp: bst_def ctx_bounds_def inorder_plug sorted_wrt_append
            intro: strcmp_trans)
      from Node.IH(1)[OF tl path', of "strcmp w (key h a)"] True b show ?thesis
        unfolding d by (auto split: option.splits descent.splits)
    next
      case False
      have path': "is_path h root (InR l a # c) (Some a) (getRightChild h (Some a))"
        using Node.prems(2) p pa tl by simp
      have d: "descend h w p par cmp =
          descend h w (getRightChild h (Some a)) (Some a) (strcmp w (key h a))"
        using False ne p by (subst descend.simps) (simp add: kw Let_def)
      from strcmp_greater[OF False ne] have gt: "strcmp (key h a) w < 0" .
      have b: "ctx_bounds h w (InR l a # c)"
        if "bst h (plug c (Node l a r))" "ctx_bounds h w c"
        using that gt
        by (auto simp: bst_def ctx_bounds_def inorder_plug sorted_wrt_append
            intro: strcmp_trans)
      from Node.IH(2)[OF tr path', of "strcmp w (key h a)"] False b show ?thesis
        unfolding d by (auto split: option.splits descent.splits)
    qed
  qed
qed

subsection \<open>Allocation and attachment\<close>

lemma get_nxt_update [simp]:
  "getWord (h\<lparr>nxt := k\<rparr>) x = getWord h x" "getColor (h\<lparr>nxt := k\<rparr>) x = getColor h x"
  "getParent (h\<lparr>nxt := k\<rparr>) x = getParent h x" "getLeftChild (h\<lparr>nxt := k\<rparr>) x = getLeftChild h x"
  "getRightChild (h\<lparr>nxt := k\<rparr>) x = getRightChild h x"
  by (simp_all add: get_defs split: option.splits)

lemma makeNode_simps [simp]:
  "snd (makeNode h w p) = Some (nxt h)"
  "nxt (fst (makeNode h w p)) = Suc (nxt h)"
  "getParent (fst (makeNode h w p)) x = (if x = Some (nxt h) then p else getParent h x)"
  "getLeftChild (fst (makeNode h w p)) x = (if x = Some (nxt h) then None else getLeftChild h x)"
  "getRightChild (fst (makeNode h w p)) x = (if x = Some (nxt h) then None else getRightChild h x)"
  "getColor (fst (makeNode h w p)) x = (if x = Some (nxt h) then CHR ''r'' else getColor h x)"
  "getWord (fst (makeNode h w p)) x = (if x = Some (nxt h) then Some w else getWord h x)"
  by (simp_all add: makeNode_def malloc_def Let_def)

lemma attach_simps:
  assumes "parent \<noteq> None" "parent \<noteq> Some (nxt h)"
  shows "snd (attach h w parent cmp) = Some (nxt h)"
    "nxt (fst (attach h w parent cmp)) = Suc (nxt h)"
    "getParent (fst (attach h w parent cmp)) x = (if x = Some (nxt h) then parent else getParent h x)"
    "getLeftChild (fst (attach h w parent cmp)) x =
       (if x = Some (nxt h) then None else if x = parent \<and> cmp < 0 then Some (nxt h)
        else getLeftChild h x)"
    "getRightChild (fst (attach h w parent cmp)) x =
       (if x = Some (nxt h) then None else if x = parent \<and> \<not> cmp < 0 then Some (nxt h)
        else getRightChild h x)"
    "getColor (fst (attach h w parent cmp)) x = (if x = Some (nxt h) then CHR ''r'' else getColor h x)"
    "getWord (fst (attach h w parent cmp)) x = (if x = Some (nxt h) then Some w else getWord h x)"
  using assms by (auto simp add: attach_def split_def Let_def)

lemma attach_shape:
  assumes path: "is_path h root c par None" and ne: "c \<noteq> []" and dir: "dir_ok c cmp"
    and dist: "distinct (before c @ after c)"
    and alloc: "\<forall>a\<in>set (before c @ after c). a < nxt h"
  shows "is_path (fst (attach h w par cmp)) root c par (Some (nxt h))"
    and "is_tree (fst (attach h w par cmp)) par (Some (nxt h)) (Node Leaf (nxt h) Leaf)"
proof -
  let ?h = "fst (attach h w par cmp)"
  from path_parent_notin[OF path] alloc have fresh: "par \<noteq> Some (nxt h)" by auto
  from path ne have pn: "par \<noteq> None" by (cases c rule: before.cases) auto
  note s = attach_simps[OF pn fresh]
  show "is_tree ?h par (Some (nxt h)) (Node Leaf (nxt h) Leaf)"
    by (simp add: s)
  have "is_path ?h (if c = [] then Some (nxt h) else root) c par (Some (nxt h))"
  proof (rule is_path_hole[OF path dist])
    show "\<forall>a\<in>set (before c @ after c). Some a \<noteq> par \<longrightarrow> same_links h ?h a"
      using alloc by (auto simp: same_links_def s)
    show "hole_ok h ?h c (Some (nxt h))"
      using path dir fresh by (cases c rule: before.cases) (auto simp: attach_simps)
  qed
  with ne show "is_path ?h root c par (Some (nxt h))" by simp
qed

subsection \<open>Insertion\<close>

lemma insert_rb_alt:
  "insert_rb h root w =
     (let (h1, root1) = (if root = None then makeNode h w None else (h, root)) in
      case descend h1 w root None 0 of
        None \<Rightarrow> None
      | Some Found \<Rightarrow> Some (h1, root1)
      | Some (Fell parent cmp) \<Rightarrow>
          (case fixup (fst (attach h1 w parent cmp)) root1 (snd (attach h1 w parent cmp)) parent of
             None \<Rightarrow> None
           | Some (h', root') \<Rightarrow> Some (setColor h' root' (CHR ''b''), root')))"
  by (simp add: insert_rb_def attach_def Let_def split_def split: option.splits descent.splits)

lemma fix_post_tree:
  assumes "fix_post h root c gpar xs res" "xs \<noteq> []" "root \<noteq> None"
  shows "\<exists>h' root' t'. res = Some (h', root') \<and> is_tree h' None root' t' \<and>
           inorder t' = before c @ xs @ after c \<and> root' \<noteq> None \<and> nxt h' = nxt h \<and>
           (\<forall>x. getWord h' x = getWord h x)"
proof -
  from assms(1) obtain h' root' sub' where r: "res = Some (h', root')"
    and p: "is_path h' root' c gpar (rootp sub')" and t: "is_tree h' gpar (rootp sub') sub'"
    and i: "inorder sub' = xs" and ro: "root' = (if c = [] then rootp sub' else root)"
    and n: "nxt h' = nxt h" and w: "\<forall>x. getWord h' x = getWord h x"
    unfolding fix_post_def by blast
  from p t have "is_tree h' None root' (plug c sub')" by (auto simp: is_tree_plug)
  moreover have "inorder (plug c sub') = before c @ xs @ after c" by (simp add: inorder_plug i)
  moreover from i assms(2) have "rootp sub' \<noteq> None" by (cases sub') auto
  with ro assms(3) have "root' \<noteq> None" by auto
  ultimately show ?thesis using r n w by blast
qed

lemma fixup_after_attach:
  assumes path: "is_path h root c par (Some N)"
    and tree: "is_tree h par (Some N) (Node Leaf N Leaf)"
    and ne: "c \<noteq> []"
    and dist: "distinct (before c @ N # after c)"
    and rootcol: "getColor h root \<noteq> CHR ''r''"
  shows "\<exists>c2 gpar xs. fix_post h root c2 gpar xs (fixup h root (Some N) par) \<and>
           before c2 @ xs @ after c2 = before c @ N # after c \<and> xs \<noteq> []"
proof (cases "getColor h par = CHR ''r''")
  case False
  then have eq: "fixup h root (Some N) par = Some (h, root)" by (rule fixup_stop)
  have "fix_post h root c par [N] (fixup h root (Some N) par)"
    by (rule fix_postI[OF eq, where sub' = "Node Leaf N Leaf"]) (use path tree ne in simp_all)
  then show ?thesis by (intro exI[of _ c] exI[of _ par] exI[of _ "[N]"]) simp
next
  case red: True
  from ne obtain f1 c1 where c: "c = f1 # c1" by (cases c) auto
  have c1ne: "c1 \<noteq> []"
  proof
    assume "c1 = []"
    with path c have "root = par" by (cases f1) auto
    with red rootcol show False by simp
  qed
  then obtain f2 c2 where c1: "c1 = f2 # c2" by (cases c1) auto
  show ?thesis
  proof (cases f1)
    case (InL P S)
    note f1 = this
    from path c f1 have par: "par = Some P" and lP: "getLeftChild h (Some P) = Some N"
      and tS: "is_tree h (Some P) (getRightChild h (Some P)) S"
      and p1: "is_path h root c1 (getParent h (Some P)) (Some P)" by auto
    show ?thesis
    proof (cases f2)
      case (InL G U)
      from p1 c1 InL have pG: "getParent h (Some P) = Some G"
        and lG: "getLeftChild h (Some G) = Some P"
        and tU: "is_tree h (Some G) (getRightChild h (Some G)) U"
        and p2: "is_path h root c2 (getParent h (Some G)) (Some G)" by auto
      have t: "is_tree h (getParent h (Some G)) (Some G) (Node (Node (Node Leaf N Leaf) P S) G U)"
        using tree par lP tS pG lG tU by simp
      have d: "distinct (before c2 @ inorder (Node (Node (Node Leaf N Leaf) P S) G U) @ after c2)"
        using dist by (simp add: c c1 f1 InL)
      from fixup_LL[OF p2 t d] red par
      have "fix_post h root c2 (getParent h (Some G))
              (inorder (Node (Node (Node Leaf N Leaf) P S) G U)) (fixup h root (Some N) par)"
        by simp
      then show ?thesis
        by (intro exI[of _ c2] exI[of _ "getParent h (Some G)"]
            exI[of _ "inorder (Node (Node (Node Leaf N Leaf) P S) G U)"])
          (simp add: c c1 f1 InL)
    next
      case (InR U G)
      from p1 c1 InR have pG: "getParent h (Some P) = Some G"
        and lG: "getRightChild h (Some G) = Some P"
        and tU: "is_tree h (Some G) (getLeftChild h (Some G)) U"
        and p2: "is_path h root c2 (getParent h (Some G)) (Some G)" by auto
      have t: "is_tree h (getParent h (Some G)) (Some G) (Node U G (Node (Node Leaf N Leaf) P S))"
        using tree par lP tS pG lG tU by simp
      have d: "distinct (before c2 @ inorder (Node U G (Node (Node Leaf N Leaf) P S)) @ after c2)"
        using dist by (simp add: c c1 f1 InR)
      from fixup_RL[OF p2 t d] red par
      have "fix_post h root c2 (getParent h (Some G))
              (inorder (Node U G (Node (Node Leaf N Leaf) P S))) (fixup h root (Some N) par)"
        by simp
      then show ?thesis
        by (intro exI[of _ c2] exI[of _ "getParent h (Some G)"]
            exI[of _ "inorder (Node U G (Node (Node Leaf N Leaf) P S))"])
          (simp add: c c1 f1 InR)
    qed
  next
    case (InR S P)
    note f1 = this
    from path c f1 have par: "par = Some P" and lP: "getRightChild h (Some P) = Some N"
      and tS: "is_tree h (Some P) (getLeftChild h (Some P)) S"
      and p1: "is_path h root c1 (getParent h (Some P)) (Some P)" by auto
    show ?thesis
    proof (cases f2)
      case (InL G U)
      from p1 c1 InL have pG: "getParent h (Some P) = Some G"
        and lG: "getLeftChild h (Some G) = Some P"
        and tU: "is_tree h (Some G) (getRightChild h (Some G)) U"
        and p2: "is_path h root c2 (getParent h (Some G)) (Some G)" by auto
      have t: "is_tree h (getParent h (Some G)) (Some G) (Node (Node S P (Node Leaf N Leaf)) G U)"
        using tree par lP tS pG lG tU by simp
      have d: "distinct (before c2 @ inorder (Node (Node S P (Node Leaf N Leaf)) G U) @ after c2)"
        using dist by (simp add: c c1 f1 InL)
      from fixup_LR[OF p2 t d] red par
      have "fix_post h root c2 (getParent h (Some G))
              (inorder (Node (Node S P (Node Leaf N Leaf)) G U)) (fixup h root (Some N) par)"
        by simp
      then show ?thesis
        by (intro exI[of _ c2] exI[of _ "getParent h (Some G)"]
            exI[of _ "inorder (Node (Node S P (Node Leaf N Leaf)) G U)"])
          (simp add: c c1 f1 InL)
    next
      case (InR U G)
      from p1 c1 InR have pG: "getParent h (Some P) = Some G"
        and lG: "getRightChild h (Some G) = Some P"
        and tU: "is_tree h (Some G) (getLeftChild h (Some G)) U"
        and p2: "is_path h root c2 (getParent h (Some G)) (Some G)" by auto
      have t: "is_tree h (getParent h (Some G)) (Some G) (Node U G (Node S P (Node Leaf N Leaf)))"
        using tree par lP tS pG lG tU by simp
      have d: "distinct (before c2 @ inorder (Node U G (Node S P (Node Leaf N Leaf))) @ after c2)"
        using dist by (simp add: c c1 f1 InR)
      from fixup_RR[OF p2 t d] red par
      have "fix_post h root c2 (getParent h (Some G))
              (inorder (Node U G (Node S P (Node Leaf N Leaf)))) (fixup h root (Some N) par)"
        by simp
      then show ?thesis
        by (intro exI[of _ c2] exI[of _ "getParent h (Some G)"]
            exI[of _ "inorder (Node U G (Node S P (Node Leaf N Leaf)))"])
          (simp add: c c1 f1 InR)
    qed
  qed
qed

lemma ins_postI:
  assumes "res = Some (h', root')" "is_tree h' None root' t'"
    "inorder t = xs @ ys" "inorder t' = xs @ nxt h # ys" "nxt h < nxt h'"
    "getWord h' (Some (nxt h)) = Some w"
    "\<forall>a<nxt h. getWord h' (Some a) = getWord h (Some a)"
    "getColor h' root' = CHR ''b''" "root' \<noteq> None"
    "bst h t \<longrightarrow> (\<forall>a\<in>set xs. strcmp (key h a) w < 0) \<and> (\<forall>a\<in>set ys. strcmp w (key h a) < 0)"
  shows "ins_post h root t w res"
  unfolding ins_post_def using assms by blast

lemma insert_rb_empty:
  "insert_rb h None w =
     Some (setColor (fst (makeNode (fst (makeNode h w None)) w None)) (Some (nxt h)) (CHR ''b''),
           Some (nxt h))"
proof -
  have d0: "\<And>h1. descend h1 w None None 0 = Some (Fell None 0)"
    by (subst descend.simps) simp
  have a0: "\<And>h1. attach h1 w None 0 = (fst (makeNode h1 w None), None)"
    by (simp add: attach_def split_def)
  show ?thesis
    by (simp add: insert_rb_alt split_def d0 a0 fixup_stop)
qed

lemma insert_rb_post:
  assumes t: "is_tree h None root t" and d: "distinct (inorder t)"
    and a: "\<forall>a\<in>set (inorder t). a < nxt h"
    and rc: "root = None \<or> getColor h root = CHR ''b''"
  shows "ins_post h root t w (insert_rb h root w)"
proof (cases root)
  case None
  with t have tl: "t = Leaf" by (cases t) auto
  show ?thesis
    unfolding None
    by (rule ins_postI[OF insert_rb_empty, where t' = "Node Leaf (nxt h) Leaf" and xs = "[]" and ys = "[]"])
      (simp_all add: tl)
next
  case (Some r)
  with t have tne: "t \<noteq> Leaf" by auto
  from Some rc have rb: "getColor h root = CHR ''b''" by simp
  from Some t have rin: "r \<in> set (inorder t)" by (auto dest: is_tree_rootp[THEN sym] rootp_in)
  from Some have rnn: "root \<noteq> None" by simp
  have p0: "is_path h root [] None root" by simp
  note ds = descend_shape[OF t p0, of 0 w, simplified]
  have alt: "insert_rb h root w =
      (case descend h w root None 0 of
         None \<Rightarrow> None
       | Some Found \<Rightarrow> Some (h, root)
       | Some (Fell parent cmp) \<Rightarrow>
          (case fixup (fst (attach h w parent cmp)) root (snd (attach h w parent cmp)) parent of
             None \<Rightarrow> None
           | Some (h', root') \<Rightarrow> Some (setColor h' root' (CHR ''b''), root')))"
    by (simp add: insert_rb_alt rnn)
  show ?thesis
  proof (cases "descend h w root None 0")
    case None
    with ds show ?thesis by simp
  next
    case (Some res)
    note dres = this
    show ?thesis
    proof (cases res)
      case Found
      with ds dres have "w \<in> key h ` set (inorder t)" by simp
      moreover have "insert_rb h root w = Some (h, root)" by (simp add: alt dres Found)
      ultimately show ?thesis using \<open>root = Some r\<close> by (simp add: ins_post_def)
    next
      case (Fell par cmp)
      with ds dres obtain c where tc: "t = plug c Leaf" and path: "is_path h root c par None"
        and dir: "dir_ok c cmp" and bnd: "bst h t \<and> ctx_bounds h w [] \<longrightarrow> ctx_bounds h w c"
        by auto
      from tc tne have ne: "c \<noteq> []" by auto
      have it: "inorder t = before c @ after c" by (simp add: tc inorder_plug)
      from d it have dist: "distinct (before c @ after c)" by simp
      from a it have alloc: "\<forall>a\<in>set (before c @ after c). a < nxt h" by simp
      define h2 where "h2 = fst (attach h w par cmp)"
      from path_parent_notin[OF path] alloc have fresh: "par \<noteq> Some (nxt h)" by auto
      from path ne have pn: "par \<noteq> None" by (cases c rule: before.cases) auto
      note s = attach_simps[OF pn fresh, of w cmp, folded h2_def]
      from attach_shape[OF path ne dir dist alloc, of w]
      have path2: "is_path h2 root c par (Some (nxt h))"
        and tree2: "is_tree h2 par (Some (nxt h)) (Node Leaf (nxt h) Leaf)"
        by (simp_all add: h2_def)
      from alloc dist have dist2: "distinct (before c @ nxt h # after c)" by auto
      from rin a \<open>root = Some r\<close> have "root \<noteq> Some (nxt h)" by auto
      with rb have rootcol2: "getColor h2 root \<noteq> CHR ''r''" by (simp add: s)
      from fixup_after_attach[OF path2 tree2 ne dist2 rootcol2] obtain c2 gpar xs where
        fp: "fix_post h2 root c2 gpar xs (fixup h2 root (Some (nxt h)) par)"
        and io: "before c2 @ xs @ after c2 = before c @ nxt h # after c" and xne: "xs \<noteq> []"
        by blast
      from \<open>root = Some r\<close> have "root \<noteq> None" by simp
      from fix_post_tree[OF fp xne this] io obtain h3 root3 t3 where
        f3: "fixup h2 root (Some (nxt h)) par = Some (h3, root3)"
        and t3: "is_tree h3 None root3 t3"
        and i3: "inorder t3 = before c @ nxt h # after c"
        and r3: "root3 \<noteq> None" and n3: "nxt h3 = nxt h2"
        and w3: "\<forall>x. getWord h3 x = getWord h2 x"
        by auto
      have res: "insert_rb h root w = Some (setColor h3 root3 (CHR ''b''), root3)"
        using f3 by (simp add: alt dres Fell s h2_def[symmetric])
      have b: "bst h t \<longrightarrow> (\<forall>a\<in>set (before c). strcmp (key h a) w < 0) \<and>
                 (\<forall>a\<in>set (after c). strcmp w (key h a) < 0)"
        using bnd by (simp add: ctx_bounds_def)
      show ?thesis
        by (rule ins_postI[OF res, where t' = t3 and xs = "before c" and ys = "after c"])
          (use t3 it i3 r3 n3 w3 b in \<open>simp_all add: s\<close>)
    qed
  qed
qed

subsection \<open>Traversal and the invariant\<close>

lemma printTree_shape:
  "is_tree h par p t \<Longrightarrow> printTree h p = Some (map (key h) (inorder t))"
proof (induction t arbitrary: par p)
  case Leaf
  then show ?case by (subst printTree.simps) simp
next
  case (Node l a r)
  from Node.prems have p: "p = Some a"
    and tl: "is_tree h (Some a) (getLeftChild h (Some a)) l"
    and tr: "is_tree h (Some a) (getRightChild h (Some a)) r" by auto
  show ?case
    by (subst printTree.simps) (simp add: p Node.IH(1)[OF tl] Node.IH(2)[OF tr] key_def)
qed

lemma bst_words: "bst h t \<longleftrightarrow> sorted_wrt (<) (map (key h) (inorder t))"
  by (simp add: bst_def sorted_wrt_map strcmp_less)

lemma insert_rb_inv:
  assumes "rbt_inv h root t"
  shows "\<exists>h' root' t'. insert_rb h root w = Some (h', root') \<and> rbt_inv h' root' t' \<and>
           key h' ` set (inorder t') = insert w (key h ` set (inorder t)) \<and>
           root' \<noteq> None \<and> getParent h' root' = None \<and> getColor h' root' = CHR ''b''"
proof -
  from assms have t: "is_tree h None root t" and d: "distinct (inorder t)"
    and a: "\<forall>a\<in>set (inorder t). a < nxt h"
    and rc: "root = None \<or> getColor h root = CHR ''b''" and b: "bst h t"
    by (auto simp: rbt_inv_def)
  from insert_rb_post[OF t d a rc, of w] show ?thesis
    unfolding ins_post_def
  proof (elim disjE conjE exE)
    assume r: "insert_rb h root w = Some (h, root)" and rn: "root \<noteq> None"
      and w: "w \<in> key h ` set (inorder t)"
    from rn rc have "getColor h root = CHR ''b''" by auto
    moreover from t rn have "getParent h root = None" by (cases t) auto
    ultimately show ?thesis using r rn w assms by (auto simp: insert_absorb)
  next
    fix h' root' t' xs ys
    assume r: "insert_rb h root w = Some (h', root')" and t': "is_tree h' None root' t'"
      and it: "inorder t = xs @ ys" and it': "inorder t' = xs @ nxt h # ys"
      and n: "nxt h < nxt h'" and wN: "getWord h' (Some (nxt h)) = Some w"
      and wo: "\<forall>a<nxt h. getWord h' (Some a) = getWord h (Some a)"
      and c: "getColor h' root' = CHR ''b''" and rn: "root' \<noteq> None"
      and bb: "bst h t \<longrightarrow> (\<forall>a\<in>set xs. strcmp (key h a) w < 0) \<and>
                 (\<forall>a\<in>set ys. strcmp w (key h a) < 0)"
    have kN: "key h' (nxt h) = w" by (simp add: key_def wN)
    have ko: "\<And>a. a \<in> set (xs @ ys) \<Longrightarrow> key h' a = key h a"
      using a wo by (simp add: key_def it)
    from a it have fresh: "nxt h \<notin> set (xs @ ys)" by auto
    with d it have d': "distinct (inorder t')" by (simp add: it')
    have a': "\<forall>a\<in>set (inorder t'). a < nxt h'"
    proof
      fix x assume "x \<in> set (inorder t')"
      then have "x = nxt h \<or> x \<in> set (inorder t)" by (auto simp: it it')
      with a n show "x < nxt h'" using less_trans by blast
    qed
    have mx: "map (key h') xs = map (key h) xs" and my: "map (key h') ys = map (key h) ys"
      using ko by auto
    from b bb have bx: "\<forall>a\<in>set xs. key h a < w" and by': "\<forall>a\<in>set ys. w < key h a"
      by (auto simp: strcmp_less)
    from b have "sorted_wrt (<) (map (key h) xs @ map (key h) ys)"
      by (simp add: bst_words it)
    with bx by' have "sorted_wrt (<) (map (key h) xs @ w # map (key h) ys)"
      by (auto simp: sorted_wrt_append)
    then have b': "bst h' t'" by (simp add: bst_words it' mx my kN)
    have ks: "key h' ` set (inorder t') = insert w (key h ` set (inorder t))"
      using ko by (auto simp: it it' kN)
    from t' rn have "getParent h' root' = None" by (cases t') auto
    with r t' d' a' c b' ks rn show ?thesis
      unfolding rbt_inv_def by blast
  qed
qed

lemma insert_all_inv:
  assumes "rbt_inv h root t"
  shows "\<exists>h' root' t'. insert_all h root ws = Some (h', root') \<and> rbt_inv h' root' t' \<and>
           key h' ` set (inorder t') = set ws \<union> key h ` set (inorder t) \<and>
           (ws \<noteq> [] \<longrightarrow> root' \<noteq> None)"
  using assms
proof (induction ws arbitrary: h root t)
  case Nil
  then show ?case by auto
next
  case (Cons w ws)
  from insert_rb_inv[OF Cons.prems, of w] obtain h1 root1 t1 where
    r: "insert_rb h root w = Some (h1, root1)" and i: "rbt_inv h1 root1 t1"
    and k: "key h1 ` set (inorder t1) = insert w (key h ` set (inorder t))"
    and rn: "root1 \<noteq> None" by blast
  from Cons.IH[OF i] obtain h' root' t' where
    r': "insert_all h1 root1 ws = Some (h', root')" and i': "rbt_inv h' root' t'"
    and k': "key h' ` set (inorder t') = set ws \<union> key h1 ` set (inorder t1)"
    and rn': "ws \<noteq> [] \<longrightarrow> root' \<noteq> None" by blast
  have "root' \<noteq> None"
  proof (cases ws)
    case Nil
    with r' rn show ?thesis by simp
  next
    case (Cons a list)
    with rn' show ?thesis by simp
  qed
  with r r' i' k k' show ?case by auto
qed

lemma rbt_inv_empty: "rbt_inv h None Leaf"
  by (simp add: rbt_inv_def bst_def)

lemma rbt_inv_print:
  assumes "rbt_inv h root t" "key h ` set (inorder t) = S"
  shows "printTree h root = Some (sorted_list_of_set S)"
proof -
  from assms have t: "is_tree h None root t" and b: "sorted_wrt (<) (map (key h) (inorder t))"
    by (auto simp: rbt_inv_def bst_words)
  from b have "sorted (map (key h) (inorder t))" "distinct (map (key h) (inorder t))"
    by (simp_all add: strict_sorted_iff)
  then have "sorted_list_of_set (set (map (key h) (inorder t))) = map (key h) (inorder t)"
    by (rule sorted_list_of_set.idem_if_sorted_distinct)
  with assms(2) printTree_shape[OF t] show ?thesis by simp
qed

lemma sort_words_eq: "sort_words h ws = Some (sorted_list_of_set (set ws))"
proof -
  from insert_all_inv[OF rbt_inv_empty, of h ws] obtain h' root' t' where
    r: "insert_all h None ws = Some (h', root')" and i: "rbt_inv h' root' t'"
    and k: "key h' ` set (inorder t') = set ws" by auto
  from rbt_inv_print[OF i k] r show ?thesis by (simp add: sort_words_def)
qed



subsection \<open>Rotation at any node of a tree\<close>

lemma plug_append: "plug (c1 @ c2) s = plug c2 (plug c1 s)"
  by (induction c1 s rule: plug.induct) auto

lemma shape_focus: "n \<in> set (inorder t) \<Longrightarrow> \<exists>c l r. t = plug c (Node l n r)"
proof (induction t)
  case Leaf
  then show ?case by simp
next
  case (Node l a r)
  show ?case
  proof (cases "n = a")
    case True
    then have "Node l a r = plug [] (Node l n r)" by simp
    then show ?thesis by blast
  next
    case False
    with Node.prems consider "n \<in> set (inorder l)" | "n \<in> set (inorder r)" by auto
    then show ?thesis
    proof cases
      case 1
      from Node.IH(1)[OF 1] obtain c l' r' where "l = plug c (Node l' n r')" by blast
      then have "Node l a r = plug (c @ [InL a r]) (Node l' n r')" by (simp add: plug_append)
      then show ?thesis by blast
    next
      case 2
      from Node.IH(2)[OF 2] obtain c l' r' where "r = plug c (Node l' n r')" by blast
      then have "Node l a r = plug (c @ [InR l a]) (Node l' n r')" by (simp add: plug_append)
      then show ?thesis by blast
    qed
  qed
qed

lemma key_cong: "\<forall>x. getWord h' x = getWord h x \<Longrightarrow> key h' = key h"
  by (auto simp: key_def fun_eq_iff)

lemma leftRotate_wf:
  assumes wf: "wf_tree h root t" and n: "n \<in> set (inorder t)"
    and m: "getRightChild h (Some n) = Some m"
  shows "case leftRotate h root (Some n) of (h', root') \<Rightarrow>
           (\<exists>t'. wf_tree h' root' t' \<and> inorder t' = inorder t) \<and>
           printTree h' root' = printTree h root \<and>
           printTree h root = Some (map (key h) (inorder t)) \<and>
           root' = (if root = Some n then Some m else root)"
proof -
  from wf have t: "is_tree h None root t" and d: "distinct (inorder t)"
    and a: "list_all (\<lambda>a. a < nxt h) (inorder t)" by (auto simp: wf_tree_def)
  from shape_focus[OF n] obtain c A r where tc: "t = plug c (Node A n r)" by blast
  from t[unfolded tc is_tree_plug] obtain par where
    path: "is_path h root c par (Some n)" and sub: "is_tree h par (Some n) (Node A n r)"
    by auto
  from sub m obtain B C where r: "r = Node B m C" by (cases r) auto
  from d have dist: "distinct (before c @ inorder (Node A n (Node B m C)) @ after c)"
    by (simp add: tc r inorder_plug)
  from leftRotate_shape[OF path sub[unfolded r] dist] obtain h' where
    eq: "leftRotate h root (Some n) = (h', if c = [] then Some m else root)"
    and p': "is_path h' (if c = [] then Some m else root) c par (Some m)"
    and t': "is_tree h' par (Some m) (Node (Node A n B) m C)"
    and n': "nxt h' = nxt h"
    and w': "\<forall>x. getColor h' x = getColor h x \<and> getWord h' x = getWord h x"
    by blast
  let ?t' = "plug c (Node (Node A n B) m C)"
  let ?root' = "if c = [] then Some m else root"
  from p' t' have T': "is_tree h' None ?root' ?t'" by (auto simp: is_tree_plug)
  have io: "inorder ?t' = inorder t" by (simp add: tc r inorder_plug)
  from T' d a n' io have wf': "wf_tree h' ?root' ?t'" by (simp add: wf_tree_def)
  from w' have k: "key h' = key h" by (simp add: key_cong)
  have pr: "printTree h' ?root' = printTree h root"
    by (simp only: printTree_shape[OF T'] printTree_shape[OF t] io k)
  have rt: "?root' = (if root = Some n then Some m else root)"
  proof (cases "c = []")
    case True
    with path show ?thesis by simp
  next
    case False
    from path_root_in[OF path False] dist have "root \<noteq> Some n" by auto
    with False show ?thesis by simp
  qed
  from wf' io pr rt printTree_shape[OF t] show ?thesis
    unfolding eq by (simp only: prod.case) blast
qed

lemma rightRotate_wf:
  assumes wf: "wf_tree h root t" and n: "n \<in> set (inorder t)"
    and m: "getLeftChild h (Some n) = Some m"
  shows "case rightRotate h root (Some n) of (h', root') \<Rightarrow>
           (\<exists>t'. wf_tree h' root' t' \<and> inorder t' = inorder t) \<and>
           printTree h' root' = printTree h root \<and>
           printTree h root = Some (map (key h) (inorder t)) \<and>
           root' = (if root = Some n then Some m else root)"
proof -
  from wf have t: "is_tree h None root t" and d: "distinct (inorder t)"
    and a: "list_all (\<lambda>a. a < nxt h) (inorder t)" by (auto simp: wf_tree_def)
  from shape_focus[OF n] obtain c l C where tc: "t = plug c (Node l n C)" by blast
  from t[unfolded tc is_tree_plug] obtain par where
    path: "is_path h root c par (Some n)" and sub: "is_tree h par (Some n) (Node l n C)"
    by auto
  from sub m obtain A B where l: "l = Node A m B" by (cases l) auto
  from d have dist: "distinct (before c @ inorder (Node (Node A m B) n C) @ after c)"
    by (simp add: tc l inorder_plug)
  from rightRotate_shape[OF path sub[unfolded l] dist] obtain h' where
    eq: "rightRotate h root (Some n) = (h', if c = [] then Some m else root)"
    and p': "is_path h' (if c = [] then Some m else root) c par (Some m)"
    and t': "is_tree h' par (Some m) (Node A m (Node B n C))"
    and n': "nxt h' = nxt h"
    and w': "\<forall>x. getColor h' x = getColor h x \<and> getWord h' x = getWord h x"
    by blast
  let ?t' = "plug c (Node A m (Node B n C))"
  let ?root' = "if c = [] then Some m else root"
  from p' t' have T': "is_tree h' None ?root' ?t'" by (auto simp: is_tree_plug)
  have io: "inorder ?t' = inorder t" by (simp add: tc l inorder_plug)
  from T' d a n' io have wf': "wf_tree h' ?root' ?t'" by (simp add: wf_tree_def)
  from w' have k: "key h' = key h" by (simp add: key_cong)
  have pr: "printTree h' ?root' = printTree h root"
    by (simp only: printTree_shape[OF T'] printTree_shape[OF t] io k)
  have rt: "?root' = (if root = Some n then Some m else root)"
  proof (cases "c = []")
    case True
    with path show ?thesis by simp
  next
    case False
    from path_root_in[OF path False] dist have "root \<noteq> Some n" by auto
    with False show ?thesis by simp
  qed
  from wf' io pr rt printTree_shape[OF t] show ?thesis
    unfolding eq by (simp only: prod.case) blast
qed

subsection \<open>Duplicates and repeated insertion\<close>

lemma wf_tree_iff:
  "wf_tree h root t \<longleftrightarrow>
     is_tree h None root t \<and> distinct (inorder t) \<and> (\<forall>a\<in>set (inorder t). a < nxt h)"
  by (simp add: wf_tree_def list_all_iff)

lemma insert_rb_present:
  assumes t: "is_tree h None root t" and b: "bst h t" and w: "w \<in> key h ` set (inorder t)"
  shows "insert_rb h root w = Some (h, root)"
proof -
  from w t have rnn: "root \<noteq> None" by (cases t) auto
  have p0: "is_path h root [] None root" by simp
  note ds = descend_shape[OF t p0, of 0 w, simplified]
  have "descend h w root None 0 = Some Found"
  proof (cases "descend h w root None 0")
    case None
    with ds show ?thesis by simp
  next
    case (Some res)
    show ?thesis
    proof (cases res)
      case Found
      with Some show ?thesis by simp
    next
      case (Fell par cmp)
      with ds Some b obtain c where tc: "t = plug c Leaf" and cb: "ctx_bounds h w c"
        by (auto simp: ctx_bounds_def)
      from w obtain a where a: "a \<in> set (before c @ after c)" and k: "key h a = w"
        by (auto simp: tc inorder_plug)
      from a cb k have "strcmp w w < 0" by (auto simp: ctx_bounds_def)
      then show ?thesis by (simp add: strcmp_less)
    qed
  qed
  then show ?thesis by (simp add: insert_rb_alt rnn)
qed

lemma insert_all_append:
  "insert_all h root (xs @ ys) =
     (case insert_all h root xs of None \<Rightarrow> None | Some (h', root') \<Rightarrow> insert_all h' root' ys)"
  by (induction xs arbitrary: h root) (auto split: option.splits)

lemma insert_all_twice:
  "insert_all h None (ws @ [w, w]) = insert_all h None (ws @ [w])"
proof -
  from insert_all_inv[OF rbt_inv_empty, of h "ws @ [w]"] obtain h1 root1 t1 where
    r: "insert_all h None (ws @ [w]) = Some (h1, root1)" and i: "rbt_inv h1 root1 t1"
    and k: "key h1 ` set (inorder t1) = set (ws @ [w])" by auto
  from i have t: "is_tree h1 None root1 t1" and b: "bst h1 t1" by (auto simp: rbt_inv_def)
  from k have "w \<in> key h1 ` set (inorder t1)" by simp
  from insert_rb_present[OF t b this] have "insert_rb h1 root1 w = Some (h1, root1)" .
  moreover have "insert_all h None (ws @ [w, w]) =
      (case insert_all h None (ws @ [w]) of None \<Rightarrow> None
       | Some (h', root') \<Rightarrow> insert_all h' root' [w])"
    using insert_all_append[of h None "ws @ [w]" "[w]"] by simp
  ultimately show ?thesis by (simp add: r)
qed

lemma wf_root_parent: "wf_tree h root t \<Longrightarrow> getParent h root = None"
  by (cases t) (auto simp: wf_tree_def)

subsection \<open>The concrete heaps\<close>

lemma initial_heap_simps [simp]:
  "nxt initial_heap = 0" "getParent initial_heap x = None" "getLeftChild initial_heap x = None"
  "getRightChild initial_heap x = None"
  by (simp_all add: initial_heap_def get_defs split: option.splits)

lemma example_heap_facts:
  "nxt example_heap = 3"
  "getParent example_heap (Some 0) = None"
  "getLeftChild example_heap (Some 0) = Some (Suc 0)"
  "getRightChild example_heap (Some 0) = Some 2"
  "getColor example_heap (Some 0) = CHR ''b''"
  "getWord example_heap (Some 0) = Some ''m''"
  "getParent example_heap (Some (Suc 0)) = Some 0"
  "getLeftChild example_heap (Some (Suc 0)) = None"
  "getRightChild example_heap (Some (Suc 0)) = None"
  "getColor example_heap (Some (Suc 0)) = CHR ''r''"
  "getWord example_heap (Some (Suc 0)) = Some ''d''"
  "getParent example_heap (Some 2) = Some 0"
  "getLeftChild example_heap (Some 2) = None"
  "getRightChild example_heap (Some 2) = None"
  "getColor example_heap (Some 2) = CHR ''r''"
  "getWord example_heap (Some 2) = Some ''t''"
  by (simp_all add: example_heap_def split_def Let_def)

lemma example_wf: "wf_tree example_heap (Some 0) example_shape"
  by (simp add: wf_tree_def example_shape_def example_heap_facts)

lemma example_bst: "bst example_heap example_shape"
  by (simp add: bst_def key_def example_shape_def example_heap_facts)

lemma example_key: "''d'' \<in> key example_heap ` set (inorder example_shape)"
  by (simp add: key_def example_shape_def example_heap_facts)

section \<open>The claims\<close>

text \<open>
  C1: for every sequence of words, inserting them one at a time into an empty tree and
  then printing the tree yields the distinct words of the sequence, each once, in ascending
  \<open>strcmp\<close> order; two sequences with the same set of words (a permutation, or one with
  repeats) print the same output, from any starting heap.
\<close>

theorem traversal_sorted_distinct:
  assumes "set ws' = set ws"
  shows "\<exists>out. sort_words h ws = Some out \<and> sort_words h' ws' = Some out \<and>
           set out = set ws \<and> distinct out \<and> sorted_wrt (\<lambda>a b. strcmp a b < 0) out"
proof -
  let ?out = "sorted_list_of_set (set ws)"
  have 1: "sort_words h ws = Some ?out" by (rule sort_words_eq)
  have 2: "sort_words h' ws' = Some ?out" by (simp add: sort_words_eq assms)
  have "sorted_wrt (<) ?out" by (simp add: strict_sorted_iff)
  then have 3: "sorted_wrt (\<lambda>a b. strcmp a b < 0) ?out" by (simp add: strcmp_less)
  have 4: "set ?out = set ws" "distinct ?out" by simp_all
  from 1 2 3 4 show ?thesis by blast
qed

theorem traversal_sorted_distinct_witness:
  "set [''cherry'', ''apple'', ''banana''] = set [''banana'', ''apple'', ''cherry'', ''apple''] \<and>
   sort_words initial_heap [''banana'', ''apple'', ''cherry'', ''apple''] =
     Some [''apple'', ''banana'', ''cherry''] \<and>
   sort_words initial_heap [''cherry'', ''apple'', ''banana''] =
     Some [''apple'', ''banana'', ''cherry'']"
proof -
  have s: "set [''cherry'', ''apple'', ''banana''] = set [''banana'', ''apple'', ''cherry'', ''apple'']"
    by auto
  have e: "sort_words initial_heap [''banana'', ''apple'', ''cherry'', ''apple''] =
     Some [''apple'', ''banana'', ''cherry'']" by code_simp
  from traversal_sorted_distinct[OF s, of initial_heap initial_heap] e s show ?thesis
    by auto
qed

text \<open>
  C2: after an insertion no RED node should have a RED child. Inserting \<open>m t d b c\<close>
  into the empty tree leaves the RED node \<open>c\<close> (address 5) with the RED right child \<open>d\<close>
  (address 3): in the zig-zag case the loop colors the stale \<open>parent\<close>, which the first
  rotation has moved below \<open>ptr\<close>, instead of the node now above the grandparent.
\<close>

theorem red_child_of_red_after_insert:
  "case insert_all initial_heap None [''m'', ''t'', ''d'', ''b'', ''c''] of
     None \<Rightarrow> False
   | Some (h, root) \<Rightarrow>
       wf_tree h root (Node (Node (Node Leaf 4 Leaf) 5 (Node Leaf 3 Leaf)) 0 (Node Leaf 2 Leaf)) \<and>
       getColor h (Some 5) = CHR ''r'' \<and> getRightChild h (Some 5) = Some 3 \<and>
       getColor h (Some 3) = CHR ''r'' \<and>
       red_red h (Node (Node (Node Leaf 4 Leaf) 5 (Node Leaf 3 Leaf)) 0 (Node Leaf 2 Leaf))"
  by code_simp

text \<open>
  C3: in Case A the parent and the uncle become BLACK, the grandparent RED and
  \<open>ptr\<close> the grandparent, and the loop should go on while the parent of \<open>ptr\<close> is RED.
  After \<open>m d t b f k e\<close> the node \<open>f\<close> (address 5) is BLACK with RED children \<open>k\<close>, \<open>e\<close>
  (addresses 6, 7) under the RED node \<open>d\<close> (address 2). Inserting \<open>l\<close> (address 8) runs
  Case A once: \<open>k\<close> and \<open>e\<close> are BLACK, \<open>f\<close> is RED, and \<open>insert\<close> returns although
  \<open>f\<close> is not the root and its parent \<open>d\<close> is RED: the loop tests the stale \<open>parent\<close>
  (\<open>k\<close>, just colored BLACK), not the parent of \<open>ptr\<close>.
\<close>

theorem fixup_stops_under_red_parent:
  "(case insert_all initial_heap None [''m'', ''d'', ''t'', ''b'', ''f'', ''k'', ''e''] of
     None \<Rightarrow> False
   | Some (h, root) \<Rightarrow>
       root = Some 0 \<and> getColor h (Some 2) = CHR ''r'' \<and> getColor h (Some 5) = CHR ''b'' \<and>
       getParent h (Some 5) = Some 2 \<and>
       getColor h (Some 6) = CHR ''r'' \<and> getColor h (Some 7) = CHR ''r'') \<and>
   (case insert_all initial_heap None [''m'', ''d'', ''t'', ''b'', ''f'', ''k'', ''e'', ''l''] of
     None \<Rightarrow> False
   | Some (h, root) \<Rightarrow>
       root = Some 0 \<and> getParent h (Some 8) = Some 6 \<and> getUncle h (Some 8) = Some 7 \<and>
       getGrandparent h (Some 8) = Some 5 \<and>
       getColor h (Some 6) = CHR ''b'' \<and> getColor h (Some 7) = CHR ''b'' \<and>
       getColor h (Some 5) = CHR ''r'' \<and>
       getParent h (Some 5) = Some 2 \<and> getColor h (Some 2) = CHR ''r'')"
  by code_simp

text \<open>
  C4: after an insertion every path from the root to an absent child should pass the
  same number of BLACK nodes. Inserting \<open>c a b\<close> into the empty tree gives the BLACK root
  \<open>b\<close> with the BLACK left child \<open>a\<close> and the RED right child \<open>c\<close>: two BLACK nodes on
  the paths through \<open>a\<close>, one on the paths through \<open>c\<close>.
\<close>

theorem black_counts_differ_after_insert:
  "case insert_all initial_heap None [''c'', ''a'', ''b''] of
     None \<Rightarrow> False
   | Some (h, root) \<Rightarrow>
       wf_tree h root (Node (Node Leaf 2 Leaf) 3 (Node Leaf 0 Leaf)) \<and>
       black_counts h (Node (Node Leaf 2 Leaf) 3 (Node Leaf 0 Leaf)) = [2, 2, 1, 1]"
  by code_simp

text \<open>
  C5: \<open>insert\<close> on a well-formed tree whose root is absent or BLACK (every tree the
  data model admits, the empty tree included) returns a tree whose root is BLACK; so after
  every insertion of a run that starts from the empty tree the root is BLACK.
\<close>

theorem insert_root_black:
  "(wf_tree h root t \<and> (root = None \<or> getColor h root = CHR ''b'') \<longrightarrow>
      (\<exists>h' root'. insert_rb h root w = Some (h', root') \<and> getColor h' root' = CHR ''b'')) \<and>
   (\<exists>h1 root1 h2 root2. insert_all h0 None ws = Some (h1, root1) \<and>
      insert_rb h1 root1 w = Some (h2, root2) \<and> getColor h2 root2 = CHR ''b'')"
proof (intro conjI impI)
  assume a: "wf_tree h root t \<and> (root = None \<or> getColor h root = CHR ''b'')"
  then have t: "is_tree h None root t" and d: "distinct (inorder t)"
    and al: "\<forall>a\<in>set (inorder t). a < nxt h"
    and rc: "root = None \<or> getColor h root = CHR ''b''" by (simp_all add: wf_tree_iff)
  from insert_rb_post[OF t d al rc, of w]
  consider (found) "insert_rb h root w = Some (h, root)" "root \<noteq> None"
    | (new) h' root' where "insert_rb h root w = Some (h', root')" "getColor h' root' = CHR ''b''"
    unfolding ins_post_def by blast
  then show "\<exists>h' root'. insert_rb h root w = Some (h', root') \<and> getColor h' root' = CHR ''b''"
  proof cases
    case found
    with rc show ?thesis by auto
  next
    case new
    then show ?thesis by blast
  qed
next
  from insert_all_inv[OF rbt_inv_empty, of h0 ws] obtain h1 root1 t1 where
    r: "insert_all h0 None ws = Some (h1, root1)" and i: "rbt_inv h1 root1 t1" by auto
  from insert_rb_inv[OF i, of w] obtain h2 root2 where
    r2: "insert_rb h1 root1 w = Some (h2, root2)" and c2: "getColor h2 root2 = CHR ''b''"
    by blast
  show "\<exists>h1 root1 h2 root2. insert_all h0 None ws = Some (h1, root1) \<and>
      insert_rb h1 root1 w = Some (h2, root2) \<and> getColor h2 root2 = CHR ''b''"
    by (intro exI[of _ h1] exI[of _ root1] exI[of _ h2] exI[of _ root2] conjI r r2 c2)
qed

theorem insert_root_black_witness:
  "wf_tree example_heap (Some 0) example_shape \<and>
   getColor example_heap (Some 0) = CHR ''b'' \<and>
   (\<exists>h' root'. insert_rb example_heap (Some 0) ''b'' = Some (h', root') \<and>
      getColor h' root' = CHR ''b'') \<and>
   (\<exists>h1 root1 h2 root2. insert_all initial_heap None [''m'', ''d''] = Some (h1, root1) \<and>
      insert_rb h1 root1 ''t'' = Some (h2, root2) \<and> getColor h2 root2 = CHR ''b'')"
  using insert_root_black[of example_heap "Some 0" example_shape "''b''" initial_heap
      "[''m'', ''d'']"]
    insert_root_black[of example_heap "Some 0" example_shape "''t''" initial_heap
      "[''m'', ''d'']"] example_wf
  by (simp add: example_heap_facts)

text \<open>
  C6: \<open>insert\<close> with a key that is present in a well-formed search tree returns the
  same root and the same heap: no node, color, key or link changes and nothing is allocated.
  Hence inserting a word twice in a row leaves the state that inserting it once leaves.
\<close>

theorem insert_duplicate_unchanged:
  assumes "wf_tree h root t" "bst h t" "w \<in> key h ` set (inorder t)"
  shows "insert_rb h root w = Some (h, root) \<and>
         insert_all h0 None (ws @ [w, w]) = insert_all h0 None (ws @ [w])"
proof -
  from assms(1) have t: "is_tree h None root t" by (simp add: wf_tree_def)
  from insert_rb_present[OF t assms(2,3)] insert_all_twice show ?thesis by simp
qed

theorem insert_duplicate_unchanged_witness:
  "wf_tree example_heap (Some 0) example_shape \<and> bst example_heap example_shape \<and>
   ''d'' \<in> key example_heap ` set (inorder example_shape) \<and>
   insert_rb example_heap (Some 0) ''d'' = Some (example_heap, Some 0) \<and>
   insert_all initial_heap None ([''m''] @ [''d'', ''d'']) =
     insert_all initial_heap None ([''m''] @ [''d''])"
  using insert_duplicate_unchanged[OF example_wf example_bst example_key, of initial_heap "[''m'']"]
    example_wf example_bst example_key
  by simp

text \<open>
  C7: for a node \<open>n\<close> of a well-formed tree whose right child \<open>m\<close> exists,
  \<open>leftRotate\<close> gives a well-formed tree with the same in-order sequence of addresses and
  prints the same keys; the root returned is \<open>m\<close> when \<open>n\<close> was the root and the old root
  otherwise. The same holds for \<open>rightRotate\<close> and the left child.
\<close>

theorem rotate_preserves_inorder:
  assumes "wf_tree h root t" "n \<in> set (inorder t)"
  shows "(getRightChild h (Some n) = Some m \<longrightarrow>
           (case leftRotate h root (Some n) of (h', root') \<Rightarrow>
              (\<exists>t'. wf_tree h' root' t' \<and> inorder t' = inorder t) \<and>
              printTree h' root' = printTree h root \<and>
              printTree h root = Some (map (key h) (inorder t)) \<and>
              root' = (if root = Some n then Some m else root))) \<and>
         (getLeftChild h (Some n) = Some m \<longrightarrow>
           (case rightRotate h root (Some n) of (h', root') \<Rightarrow>
              (\<exists>t'. wf_tree h' root' t' \<and> inorder t' = inorder t) \<and>
              printTree h' root' = printTree h root \<and>
              printTree h root = Some (map (key h) (inorder t)) \<and>
              root' = (if root = Some n then Some m else root)))"
proof (intro conjI impI)
  assume "getRightChild h (Some n) = Some m"
  from leftRotate_wf[OF assms this]
  show "case leftRotate h root (Some n) of (h', root') \<Rightarrow>
              (\<exists>t'. wf_tree h' root' t' \<and> inorder t' = inorder t) \<and>
              printTree h' root' = printTree h root \<and>
              printTree h root = Some (map (key h) (inorder t)) \<and>
              root' = (if root = Some n then Some m else root)" .
next
  assume "getLeftChild h (Some n) = Some m"
  from rightRotate_wf[OF assms this]
  show "case rightRotate h root (Some n) of (h', root') \<Rightarrow>
              (\<exists>t'. wf_tree h' root' t' \<and> inorder t' = inorder t) \<and>
              printTree h' root' = printTree h root \<and>
              printTree h root = Some (map (key h) (inorder t)) \<and>
              root' = (if root = Some n then Some m else root)" .
qed

theorem rotate_preserves_inorder_witness:
  "wf_tree example_heap (Some 0) example_shape \<and> 0 \<in> set (inorder example_shape) \<and>
   getRightChild example_heap (Some 0) = Some 2 \<and>
   (case leftRotate example_heap (Some 0) (Some 0) of (h', root') \<Rightarrow>
      printTree h' root' = Some [''d'', ''m'', ''t''] \<and> root' = Some 2) \<and>
   getLeftChild example_heap (Some 0) = Some 1 \<and>
   (case rightRotate example_heap (Some 0) (Some 0) of (h', root') \<Rightarrow>
      printTree h' root' = Some [''d'', ''m'', ''t''] \<and> root' = Some 1)"
proof -
  have n: "0 \<in> set (inorder example_shape)" by (simp add: example_shape_def)
  have k: "map (key example_heap) (inorder example_shape) = [''d'', ''m'', ''t'']"
    by (simp add: key_def example_shape_def example_heap_facts)
  obtain h1 r1 where e1: "leftRotate example_heap (Some 0) (Some 0) = (h1, r1)"
    by (cases "leftRotate example_heap (Some 0) (Some 0)")
  obtain h2 r2 where e2: "rightRotate example_heap (Some 0) (Some 0) = (h2, r2)"
    by (cases "rightRotate example_heap (Some 0) (Some 0)")
  from rotate_preserves_inorder[OF example_wf n, of 2] k
  have 1: "printTree h1 r1 = Some [''d'', ''m'', ''t''] \<and> r1 = Some 2"
    by (auto simp add: e1 example_heap_facts)
  from rotate_preserves_inorder[OF example_wf n, of 1] k
  have 2: "printTree h2 r2 = Some [''d'', ''m'', ''t''] \<and> r2 = Some 1"
    by (auto simp add: e2 example_heap_facts)
  from 1 2 example_wf n show ?thesis
    by (auto simp add: e1 e2 example_heap_facts)
qed

text \<open>
  C8: \<open>insert\<close> on the empty tree returns a freshly allocated root that holds the
  word, is BLACK and has no parent and no children.
\<close>

theorem insert_empty_single_black_root:
  "\<exists>h'. insert_rb h None w = Some (h', Some (nxt h)) \<and>
     getWord h' (Some (nxt h)) = Some w \<and> getColor h' (Some (nxt h)) = CHR ''b'' \<and>
     getParent h' (Some (nxt h)) = None \<and> getLeftChild h' (Some (nxt h)) = None \<and>
     getRightChild h' (Some (nxt h)) = None \<and>
     wf_tree h' (Some (nxt h)) (Node Leaf (nxt h) Leaf)"
  by (simp add: insert_rb_empty wf_tree_def)

text \<open>
  C9: \<open>setColor\<close> with a color other than \<open>r\<close> and \<open>b\<close> changes nothing: the heap
  and so the node's color stay as they were; with \<open>r\<close> or \<open>b\<close> the node then has that
  color.
\<close>

theorem setColor_invalid_ignored:
  "(c \<noteq> CHR ''r'' \<and> c \<noteq> CHR ''b'' \<longrightarrow>
      setColor h n c = h \<and> getColor (setColor h n c) n = getColor h n) \<and>
   (c = CHR ''r'' \<or> c = CHR ''b'' \<longrightarrow> getColor (setColor h (Some a) c) (Some a) = c)"
  by (auto simp: setColor_def getColor_def split: option.splits)

theorem setColor_invalid_ignored_witness:
  "CHR ''x'' \<noteq> CHR ''r'' \<and> CHR ''x'' \<noteq> CHR ''b'' \<and>
   setColor example_heap (Some 0) (CHR ''x'') = example_heap \<and>
   getColor (setColor example_heap (Some 0) (CHR ''x'')) (Some 0) = CHR ''b'' \<and>
   getColor (setColor example_heap (Some 0) (CHR ''r'')) (Some 0) = CHR ''r''"
  using setColor_invalid_ignored[of "CHR ''x''" example_heap "Some 0" 0]
    setColor_invalid_ignored[of "CHR ''r''" example_heap "Some 0" 0]
  by (simp add: example_heap_facts)

text \<open>
  C10: on every tree reached by insertions into the empty tree, \<open>insert\<close> returns a
  root that is not NULL and has no parent; a rotation at the root of a well-formed tree
  returns the promoted child as the root, with its parent link absent.
\<close>

theorem insert_root_parent_absent:
  "(\<exists>h root h' root'. insert_all h0 None ws = Some (h, root) \<and>
      insert_rb h root w = Some (h', root') \<and> root' \<noteq> None \<and> getParent h' root' = None) \<and>
   (wf_tree h (Some n) t \<and> getRightChild h (Some n) = Some m \<longrightarrow>
      (case leftRotate h (Some n) (Some n) of (h', root') \<Rightarrow>
         root' = Some m \<and> getParent h' root' = None)) \<and>
   (wf_tree h (Some n) t \<and> getLeftChild h (Some n) = Some m \<longrightarrow>
      (case rightRotate h (Some n) (Some n) of (h', root') \<Rightarrow>
         root' = Some m \<and> getParent h' root' = None))"
proof (intro conjI impI)
  from insert_all_inv[OF rbt_inv_empty, of h0 ws] obtain h1 root1 t1 where
    r: "insert_all h0 None ws = Some (h1, root1)" and i: "rbt_inv h1 root1 t1" by auto
  from insert_rb_inv[OF i, of w] obtain h2 root2 where
    r2: "insert_rb h1 root1 w = Some (h2, root2)" and n2: "root2 \<noteq> None"
    and p2: "getParent h2 root2 = None" by blast
  show "\<exists>h root h' root'. insert_all h0 None ws = Some (h, root) \<and>
      insert_rb h root w = Some (h', root') \<and> root' \<noteq> None \<and> getParent h' root' = None"
    by (intro exI[of _ h1] exI[of _ root1] exI[of _ h2] exI[of _ root2] conjI r r2 n2 p2)
next
  assume a: "wf_tree h (Some n) t \<and> getRightChild h (Some n) = Some m"
  then have w: "wf_tree h (Some n) t" and m: "getRightChild h (Some n) = Some m" by simp_all
  from w have n: "n \<in> set (inorder t)" by (cases t) (auto simp: wf_tree_def)
  obtain h' root' where eq: "leftRotate h (Some n) (Some n) = (h', root')"
    by (cases "leftRotate h (Some n) (Some n)")
  from leftRotate_wf[OF w n m] obtain t' where "wf_tree h' root' t'" "root' = Some m"
    unfolding eq by auto
  with wf_root_parent[of h' root' t']
  show "case leftRotate h (Some n) (Some n) of (h', root') \<Rightarrow>
         root' = Some m \<and> getParent h' root' = None"
    unfolding eq by simp
next
  assume a: "wf_tree h (Some n) t \<and> getLeftChild h (Some n) = Some m"
  then have w: "wf_tree h (Some n) t" and m: "getLeftChild h (Some n) = Some m" by simp_all
  from w have n: "n \<in> set (inorder t)" by (cases t) (auto simp: wf_tree_def)
  obtain h' root' where eq: "rightRotate h (Some n) (Some n) = (h', root')"
    by (cases "rightRotate h (Some n) (Some n)")
  from rightRotate_wf[OF w n m] obtain t' where "wf_tree h' root' t'" "root' = Some m"
    unfolding eq by auto
  with wf_root_parent[of h' root' t']
  show "case rightRotate h (Some n) (Some n) of (h', root') \<Rightarrow>
         root' = Some m \<and> getParent h' root' = None"
    unfolding eq by simp
qed

theorem insert_root_parent_absent_witness:
  "(\<exists>h root h' root'. insert_all initial_heap None [''m'', ''d''] = Some (h, root) \<and>
      insert_rb h root ''t'' = Some (h', root') \<and> root' \<noteq> None \<and> getParent h' root' = None) \<and>
   wf_tree example_heap (Some 0) example_shape \<and>
   getRightChild example_heap (Some 0) = Some 2 \<and>
   (case leftRotate example_heap (Some 0) (Some 0) of (h', root') \<Rightarrow>
      root' = Some 2 \<and> getParent h' root' = None) \<and>
   getLeftChild example_heap (Some 0) = Some 1 \<and>
   (case rightRotate example_heap (Some 0) (Some 0) of (h', root') \<Rightarrow>
      root' = Some 1 \<and> getParent h' root' = None)"
  using insert_root_parent_absent[of initial_heap "[''m'', ''d'']" "''t''" example_heap 0
      example_shape 2]
    insert_root_parent_absent[of initial_heap "[''m'', ''d'']" "''t''" example_heap 0
      example_shape 1] example_wf
  by (simp add: example_heap_facts)

end
